theory Spec2Isabelle
  imports Main "HOL-Library.Word"
begin

section \<open>Machine model\<close>

text \<open>
  The class \<^verbatim>\<open>CircularArray<ValueType>\<close> of \<^verbatim>\<open>cobsea_libs/circular_array.h\<close> keeps four
  \<^verbatim>\<open>size_t\<close> counters and a raw pointer to an array obtained from \<^verbatim>\<open>new ValueType[n]\<close>.
  The counters are 64-bit words, so that \<^verbatim>\<open>_capacity - 1\<close> at 0 and \<^verbatim>\<open>size_--\<close> at 0 wrap
  as they do in C++. The arrays live in an explicit heap: a pointer is an address or
  \<^verbatim>\<open>nullptr\<close> (\<open>None\<close>), so that two containers can be told apart by the store they own.
  The heap is the list of all arrays ever allocated, an address is a position in it, and
  a freed array leaves \<open>None\<close> behind: addresses are never reused.
  Whatever is undefined behaviour in C++ (a null or dangling pointer, an index outside the
  array, \<^verbatim>\<open>%\<close> by zero) and a failing allocation are error values.
\<close>

type_synonym size_t = "64 word"
type_synonym addr = nat

datatype error = NullPointer | Dangling | OutOfBounds | DivisionByZero | BadAlloc

type_synonym 'a heap = "'a list option list"

definition cells :: "'a heap \<Rightarrow> addr \<Rightarrow> 'a list option" where
  "cells h a = (if a < length h then h ! a else None)"

definition bind_res :: "error + 'a \<Rightarrow> ('a \<Rightarrow> error + 'b) \<Rightarrow> error + 'b" where
  "bind_res m f = (case m of Inl e \<Rightarrow> Inl e | Inr x \<Rightarrow> f x)"

text \<open>
  \<^verbatim>\<open>new ValueType[n]\<close>: a fresh address holding \<open>n\<close> default-initialised elements; \<open>d\<close>
  stands for the value of such an element. No object has \<open>2 ^ 63\<close> elements or more on a
  64-bit target, so such a request fails (\<^verbatim>\<open>std::bad_array_new_length\<close>); every smaller
  request is taken to succeed.
\<close>

definition new_array :: "'a \<Rightarrow> size_t \<Rightarrow> 'a heap \<Rightarrow> error + (addr \<times> 'a heap)" where
  "new_array d n h =
     (if 2 ^ 63 \<le> unat n then Inl BadAlloc
      else Inr (length h, h @ [Some (replicate (unat n) d)]))"

text \<open>\<^verbatim>\<open>delete [] p\<close> for a non-null \<open>p\<close>.\<close>

definition delete_array :: "addr \<Rightarrow> 'a heap \<Rightarrow> error + 'a heap" where
  "delete_array a h =
     (case cells h a of None \<Rightarrow> Inl Dangling
      | Some xs \<Rightarrow> Inr (h[a := None]))"

text \<open>Reading \<^verbatim>\<open>p[i]\<close> and the assignment \<^verbatim>\<open>p[i] = v\<close>.\<close>

definition array_get :: "addr option \<Rightarrow> size_t \<Rightarrow> 'a heap \<Rightarrow> error + 'a" where
  "array_get p i h =
     (case p of None \<Rightarrow> Inl NullPointer
      | Some a \<Rightarrow>
         (case cells h a of None \<Rightarrow> Inl Dangling
          | Some xs \<Rightarrow> if unat i < length xs then Inr (xs ! unat i) else Inl OutOfBounds))"

definition array_set :: "addr option \<Rightarrow> size_t \<Rightarrow> 'a \<Rightarrow> 'a heap \<Rightarrow> error + 'a heap" where
  "array_set p i v h =
     (case p of None \<Rightarrow> Inl NullPointer
      | Some a \<Rightarrow>
         (case cells h a of None \<Rightarrow> Inl Dangling
          | Some xs \<Rightarrow>
             if unat i < length xs then Inr (h[a := Some (xs[unat i := v])])
             else Inl OutOfBounds))"

text \<open>The operator \<^verbatim>\<open>%\<close> on \<^verbatim>\<open>size_t\<close>.\<close>

definition umod :: "size_t \<Rightarrow> size_t \<Rightarrow> error + size_t" where
  "umod a b = (if b = 0 then Inl DivisionByZero else Inr (a mod b))"

text \<open>
  \<^verbatim>\<open>for (size_t i = a; i < n; i++) body\<close> and \<^verbatim>\<open>for (size_t i = a; i > lo; i--) body\<close>,
  for a body that changes neither \<open>i\<close> nor the bound.
\<close>

function for_up :: "size_t \<Rightarrow> size_t \<Rightarrow> (size_t \<Rightarrow> 's \<Rightarrow> error + 's) \<Rightarrow> 's \<Rightarrow> error + 's" where
  "for_up i n body s =
     (if i < n then (case body i s of Inl e \<Rightarrow> Inl e | Inr s' \<Rightarrow> for_up (i + 1) n body s')
      else Inr s)"
  by pat_completeness auto
termination
proof (relation "measure (\<lambda>(i, n, body, s). unat n - unat i)")
  show "wf (measure (\<lambda>(i :: size_t, n :: size_t, body :: size_t \<Rightarrow> 's \<Rightarrow> error + 's, s :: 's).
              unat n - unat i))"
    by simp
next
  fix i n :: size_t and body :: "size_t \<Rightarrow> 's \<Rightarrow> error + 's" and s x2 :: 's
  assume "i < n"
  then have "unat i < unat n"
    by (simp add: word_less_nat_alt)
  moreover from \<open>i < n\<close> have "unat (i + 1) = unat i + 1"
    by unat_arith
  ultimately show "((i + 1, n, body, x2), (i, n, body, s))
      \<in> measure (\<lambda>(i, n, body, s). unat n - unat i)"
    by simp
qed

function for_down :: "size_t \<Rightarrow> size_t \<Rightarrow> (size_t \<Rightarrow> 's \<Rightarrow> error + 's) \<Rightarrow> 's \<Rightarrow> error + 's" where
  "for_down i lo body s =
     (if i > lo then (case body i s of Inl e \<Rightarrow> Inl e | Inr s' \<Rightarrow> for_down (i - 1) lo body s')
      else Inr s)"
  by pat_completeness auto
termination
proof (relation "measure (\<lambda>(i, lo, body, s). unat i)")
  show "wf (measure (\<lambda>(i :: size_t, lo :: size_t, body :: size_t \<Rightarrow> 's \<Rightarrow> error + 's, s :: 's).
              unat i))"
    by simp
next
  fix i lo :: size_t and body :: "size_t \<Rightarrow> 's \<Rightarrow> error + 's" and s x2 :: 's
  assume "lo < i"
  then have "i \<noteq> 0"
    by auto
  then have "unat (i - 1) < unat i"
    by (rule measure_unat)
  then show "((i - 1, lo, body, x2), (i, lo, body, s)) \<in> measure (\<lambda>(i, lo, body, s). unat i)"
    by simp
qed

declare for_up.simps [simp del] for_down.simps [simp del]

section \<open>The container\<close>

text \<open>
  The private members \<^verbatim>\<open>data_array_\<close>, \<^verbatim>\<open>head_\<close>, \<^verbatim>\<open>tail_\<close>, \<^verbatim>\<open>size_\<close> and
  \<^verbatim>\<open>capacity_\<close>, without the trailing underscore; \<open>size_c\<close> is \<^verbatim>\<open>size_\<close>. The elements
  are in the heap, so the record itself does not depend on \<^verbatim>\<open>ValueType\<close>.
\<close>

record CircularArray =
  data_array :: "addr option"
  head :: size_t
  tail :: size_t
  size_c :: size_t
  capacity :: size_t

text \<open>
  The constructors: default, sized, sized with fill and copy; the destructor. The move
  constructor is declared with a parameter of type \<^verbatim>\<open>CircularArray<ValueType> const &&\<close>
  and its body assigns to \<^verbatim>\<open>other.data_array_\<close>, \<^verbatim>\<open>other.size_\<close> and
  \<^verbatim>\<open>other.capacity_\<close>, members of a const object: it is ill-formed as soon as it is
  instantiated, no program runs it, and it has no embedding here.
\<close>

definition CircularArray_default :: CircularArray where
  "CircularArray_default =
     \<lparr>data_array = None, head = 0, tail = 0, size_c = 0, capacity = 0\<rparr>"

definition CircularArray_sized :: "'a \<Rightarrow> size_t \<Rightarrow> 'a heap \<Rightarrow> error + (CircularArray \<times> 'a heap)" where
  "CircularArray_sized d n h =
     bind_res (new_array d n h) (\<lambda>(p, h1).
       Inr (\<lparr>data_array = Some p, head = 0, tail = 0, size_c = 0, capacity = n\<rparr>, h1))"

definition CircularArray_fill ::
  "'a \<Rightarrow> size_t \<Rightarrow> 'a \<Rightarrow> 'a heap \<Rightarrow> error + (CircularArray \<times> 'a heap)" where
  "CircularArray_fill d n v h =
     bind_res (new_array d n h) (\<lambda>(p, h1).
       let c = \<lparr>data_array = Some p, head = 0, tail = n - 1, size_c = n, capacity = n\<rparr> in
       bind_res (for_up 0 n (\<lambda>i. array_set (data_array c) i v) h1) (\<lambda>h2. Inr (c, h2)))"

text \<open>\<^verbatim>\<open>operator[]\<close> returns a reference: the slot it designates, and the value read there.\<close>

definition subscript_ref :: "CircularArray \<Rightarrow> size_t \<Rightarrow> error + size_t" where
  "subscript_ref c idx = umod (head c + idx) (capacity c)"

definition subscript :: "CircularArray \<Rightarrow> size_t \<Rightarrow> 'a heap \<Rightarrow> error + 'a" where
  "subscript c idx h = bind_res (subscript_ref c idx) (\<lambda>k. array_get (data_array c) k h)"

definition CircularArray_copy ::
  "'a \<Rightarrow> CircularArray \<Rightarrow> 'a heap \<Rightarrow> error + (CircularArray \<times> 'a heap)" where
  "CircularArray_copy d other h =
     bind_res (new_array d (size_c other) h) (\<lambda>(p, h1).
       let c = \<lparr>data_array = Some p, head = 0, tail = size_c other - 1,
                size_c = size_c other, capacity = size_c other\<rparr> in
       bind_res (for_up 0 (size_c other)
                   (\<lambda>i hh. bind_res (subscript other i hh)
                              (\<lambda>x. array_set (data_array c) i x hh)) h1)
         (\<lambda>h2. Inr (c, h2)))"

definition CircularArray_destroy :: "CircularArray \<Rightarrow> 'a heap \<Rightarrow> error + 'a heap" where
  "CircularArray_destroy c h =
     (case data_array c of None \<Rightarrow> Inr h | Some a \<Rightarrow> delete_array a h)"

text \<open>Growth.\<close>

definition ExtandArray :: "'a \<Rightarrow> CircularArray \<Rightarrow> 'a heap \<Rightarrow> error + (CircularArray \<times> 'a heap)" where
  "ExtandArray d c h =
     (let c1 = (if capacity c = 0 then c\<lparr>capacity := 1\<rparr> else c) in
      bind_res (new_array d (capacity c1 * 2) h) (\<lambda>(new_arr, h1).
        bind_res (for_up 0 (size_c c1)
                    (\<lambda>i hh. bind_res (umod (head c1 + i) (capacity c1))
                               (\<lambda>k. bind_res (array_get (data_array c1) k hh)
                                 (\<lambda>x. array_set (Some new_arr) i x hh))) h1)
          (\<lambda>h2. bind_res (case data_array c1 of None \<Rightarrow> Inr h2 | Some a \<Rightarrow> delete_array a h2)
            (\<lambda>h3. Inr (c1\<lparr>data_array := Some new_arr, head := 0, tail := size_c c1,
                           capacity := capacity c1 * 2\<rparr>, h3)))))"

definition grow_if_full ::
  "'a \<Rightarrow> CircularArray \<Rightarrow> 'a heap \<Rightarrow> error + (CircularArray \<times> 'a heap)" where
  "grow_if_full d c h = (if size_c c = capacity c then ExtandArray d c h else Inr (c, h))"

text \<open>The operations.\<close>

definition PushFront ::
  "'a \<Rightarrow> 'a \<Rightarrow> CircularArray \<Rightarrow> 'a heap \<Rightarrow> error + (CircularArray \<times> 'a heap)" where
  "PushFront d v c h =
     bind_res (grow_if_full d c h) (\<lambda>(c1, h1).
       let c2 = (if head c1 = 0 then c1\<lparr>head := capacity c1 - 1\<rparr>
                 else c1\<lparr>head := head c1 - 1\<rparr>) in
       bind_res (array_set (data_array c2) (head c2) v h1)
         (\<lambda>h2. Inr (c2\<lparr>size_c := size_c c2 + 1\<rparr>, h2)))"

definition PushBack ::
  "'a \<Rightarrow> 'a \<Rightarrow> CircularArray \<Rightarrow> 'a heap \<Rightarrow> error + (CircularArray \<times> 'a heap)" where
  "PushBack d v c h =
     bind_res (grow_if_full d c h) (\<lambda>(c1, h1).
       bind_res (array_set (data_array c1) (tail c1) v h1) (\<lambda>h2.
         bind_res (umod (tail c1 + 1) (capacity c1))
           (\<lambda>t. Inr (c1\<lparr>tail := t, size_c := size_c c1 + 1\<rparr>, h2))))"

definition PopFront :: "CircularArray \<Rightarrow> error + CircularArray" where
  "PopFront c =
     bind_res (umod (head c + 1) (capacity c))
       (\<lambda>k. Inr (c\<lparr>head := k, size_c := size_c c - 1\<rparr>))"

definition PopBack :: "CircularArray \<Rightarrow> CircularArray" where
  "PopBack c =
     (let c1 = (if tail c = 0 then c\<lparr>tail := capacity c - 1\<rparr> else c\<lparr>tail := tail c - 1\<rparr>)
      in c1\<lparr>size_c := size_c c1 - 1\<rparr>)"

definition Front_ref :: "CircularArray \<Rightarrow> size_t" where
  "Front_ref c = head c"

definition Front :: "CircularArray \<Rightarrow> 'a heap \<Rightarrow> error + 'a" where
  "Front c h = array_get (data_array c) (Front_ref c) h"

definition Back_ref :: "CircularArray \<Rightarrow> size_t" where
  "Back_ref c = (if tail c \<noteq> 0 then tail c - 1 else capacity c - 1)"

definition Back :: "CircularArray \<Rightarrow> 'a heap \<Rightarrow> error + 'a" where
  "Back c h = array_get (data_array c) (Back_ref c) h"

definition InsertAt ::
  "'a \<Rightarrow> 'a \<Rightarrow> size_t \<Rightarrow> CircularArray \<Rightarrow> 'a heap \<Rightarrow> error + (CircularArray \<times> 'a heap)" where
  "InsertAt d v pos c h =
     bind_res (grow_if_full d c h) (\<lambda>(c1, h1).
       bind_res (for_down (size_c c1) pos
                   (\<lambda>i hh. bind_res (subscript c1 (i - 1) hh)
                              (\<lambda>x. bind_res (umod (head c1 + i) (capacity c1))
                                (\<lambda>k. array_set (data_array c1) k x hh))) h1)
         (\<lambda>h2. bind_res (umod (head c1 + pos) (capacity c1))
           (\<lambda>k. bind_res (array_set (data_array c1) k v h2)
             (\<lambda>h3. bind_res (umod (tail c1 + 1) (capacity c1))
               (\<lambda>t. Inr (c1\<lparr>tail := t, size_c := size_c c1 + 1\<rparr>, h3))))))"

definition RemoveAt :: "size_t \<Rightarrow> CircularArray \<Rightarrow> 'a heap \<Rightarrow> error + (CircularArray \<times> 'a heap)" where
  "RemoveAt pos c h =
     bind_res (for_up pos (size_c c)
                 (\<lambda>i hh. bind_res (subscript c (i + 1) hh)
                            (\<lambda>x. bind_res (umod (head c + i) (capacity c))
                              (\<lambda>k. array_set (data_array c) k x hh))) h)
       (\<lambda>h1. Inr (PopBack c, h1))"

definition Size :: "CircularArray \<Rightarrow> size_t" where
  "Size c = size_c c"

definition Capacity :: "CircularArray \<Rightarrow> size_t" where
  "Capacity c = capacity c"

definition Empty :: "CircularArray \<Rightarrow> bool" where
  "Empty c = (size_c c = 0)"

section \<open>Sequences of operations\<close>

text \<open>
  The mutating calls a client can make on a live container. \<open>OpAssign i v\<close> is the
  assignment \<^verbatim>\<open>a[i] = v\<close> through the reference that \<^verbatim>\<open>operator[]\<close> returns. The
  precondition of each call is the one of the specification's table of operations.
\<close>

datatype 'a operation =
    OpPushFront 'a
  | OpPushBack 'a
  | OpPopFront
  | OpPopBack
  | OpInsertAt 'a size_t
  | OpRemoveAt size_t
  | OpAssign size_t 'a

fun perform ::
  "'a \<Rightarrow> 'a operation \<Rightarrow> CircularArray \<Rightarrow> 'a heap \<Rightarrow> error + (CircularArray \<times> 'a heap)" where
  "perform d (OpPushFront v) c h = PushFront d v c h"
| "perform d (OpPushBack v) c h = PushBack d v c h"
| "perform d OpPopFront c h = bind_res (PopFront c) (\<lambda>c'. Inr (c', h))"
| "perform d OpPopBack c h = Inr (PopBack c, h)"
| "perform d (OpInsertAt v pos) c h = InsertAt d v pos c h"
| "perform d (OpRemoveAt pos) c h = RemoveAt pos c h"
| "perform d (OpAssign i v) c h =
     bind_res (subscript_ref c i) (\<lambda>k.
       bind_res (array_set (data_array c) k v h) (\<lambda>h'. Inr (c, h')))"

fun precondition :: "'a operation \<Rightarrow> CircularArray \<Rightarrow> bool" where
  "precondition (OpPushFront v) c = True"
| "precondition (OpPushBack v) c = True"
| "precondition OpPopFront c = (0 < size_c c)"
| "precondition OpPopBack c = (0 < size_c c)"
| "precondition (OpInsertAt v pos) c = (pos \<le> size_c c)"
| "precondition (OpRemoveAt pos) c = (pos < size_c c)"
| "precondition (OpAssign i v) c = (i < size_c c)"

fun perform_all ::
  "'a \<Rightarrow> 'a operation list \<Rightarrow> CircularArray \<Rightarrow> 'a heap \<Rightarrow> error + (CircularArray \<times> 'a heap)" where
  "perform_all d [] c h = Inr (c, h)"
| "perform_all d (x # xs) c h =
     bind_res (perform d x c h) (\<lambda>(c', h'). perform_all d xs c' h')"

text \<open>
  The states of a container: what a constructor leaves, and what an operation called
  under its precondition makes of such a state. The rule \<open>reach_storeless\<close> adds to
  them the states with a null pointer and size and capacity 0, and \<open>head\<close> and the tail
  pointer as they were: what the body of the move constructor writes to its source. No
  program gets there through the class as it is declared; the rule only enlarges the set
  of states that the invariants are proved for.
\<close>

inductive reachable :: "'a \<Rightarrow> CircularArray \<Rightarrow> 'a heap \<Rightarrow> bool" for d :: 'a where
  reach_default: "reachable d CircularArray_default h"
| reach_sized: "CircularArray_sized d n h = Inr (c, h') \<Longrightarrow> reachable d c h'"
| reach_fill: "CircularArray_fill d n v h = Inr (c, h') \<Longrightarrow> reachable d c h'"
| reach_copy: "reachable d c h \<Longrightarrow> CircularArray_copy d c h = Inr (c', h') \<Longrightarrow> reachable d c' h'"
| reach_storeless:
    "reachable d c h \<Longrightarrow> reachable d (c\<lparr>data_array := None, size_c := 0, capacity := 0\<rparr>) h"
| reach_perform:
    "reachable d c h \<Longrightarrow> precondition x c \<Longrightarrow> perform d x c h = Inr (c', h') \<Longrightarrow> reachable d c' h'"

text \<open>
  The logical sequence, read through \<^verbatim>\<open>operator[]\<close> at the indices \<open>0 .. size - 1\<close>.
\<close>

definition logical :: "CircularArray \<Rightarrow> 'a heap \<Rightarrow> (error + 'a) list" where
  "logical c h = map (\<lambda>i. subscript c (of_nat i) h) [0..<unat (size_c c)]"

text \<open>
  Pushing a list of values at one end, and reading then popping \<open>n\<close> times at one end.
\<close>

fun push_back_all ::
  "'a \<Rightarrow> 'a list \<Rightarrow> CircularArray \<Rightarrow> 'a heap \<Rightarrow> error + (CircularArray \<times> 'a heap)" where
  "push_back_all d [] c h = Inr (c, h)"
| "push_back_all d (v # vs) c h =
     bind_res (PushBack d v c h) (\<lambda>(c', h'). push_back_all d vs c' h')"

fun push_front_all ::
  "'a \<Rightarrow> 'a list \<Rightarrow> CircularArray \<Rightarrow> 'a heap \<Rightarrow> error + (CircularArray \<times> 'a heap)" where
  "push_front_all d [] c h = Inr (c, h)"
| "push_front_all d (v # vs) c h =
     bind_res (PushFront d v c h) (\<lambda>(c', h'). push_front_all d vs c' h')"

fun drain_front :: "nat \<Rightarrow> CircularArray \<Rightarrow> 'a heap \<Rightarrow> error + 'a list" where
  "drain_front 0 c h = Inr []"
| "drain_front (Suc n) c h =
     bind_res (Front c h) (\<lambda>x.
       bind_res (PopFront c) (\<lambda>c'.
         bind_res (drain_front n c' h) (\<lambda>xs. Inr (x # xs))))"

fun drain_back :: "nat \<Rightarrow> CircularArray \<Rightarrow> 'a heap \<Rightarrow> error + 'a list" where
  "drain_back 0 c h = Inr []"
| "drain_back (Suc n) c h =
     bind_res (Back c h) (\<lambda>x.
       bind_res (drain_back n (PopBack c) h) (\<lambda>xs. Inr (x # xs)))"

section \<open>Invariants\<close>

text \<open>
  The container owns a store of \<open>capacity\<close> elements (or none, with capacity 0), holds
  at most \<open>capacity\<close> elements, and \<open>head\<close> and the tail pointer index the store.
\<close>

definition store_ok :: "CircularArray \<Rightarrow> 'a heap \<Rightarrow> bool" where
  "store_ok c h =
     (case data_array c of None \<Rightarrow> capacity c = 0
      | Some a \<Rightarrow> (case cells h a of None \<Rightarrow> False | Some xs \<Rightarrow> length xs = unat (capacity c)))"

definition wf_c :: "CircularArray \<Rightarrow> 'a heap \<Rightarrow> bool" where
  "wf_c c h =
     (store_ok c h \<and> unat (capacity c) < 2 ^ 63 \<and> size_c c \<le> capacity c \<and>
      (capacity c \<noteq> 0 \<longrightarrow> head c < capacity c \<and> tail c < capacity c))"

text \<open>The tail pointer is the next free slot.\<close>

definition tail_ok :: "CircularArray \<Rightarrow> bool" where
  "tail_ok c = (capacity c \<noteq> 0 \<longrightarrow> tail c = (head c + size_c c) mod capacity c)"

text \<open>The elements of the logical window, read off the store directly.\<close>

definition window :: "CircularArray \<Rightarrow> 'a heap \<Rightarrow> 'a list" where
  "window c h =
     (case data_array c of None \<Rightarrow> []
      | Some a \<Rightarrow>
         (case cells h a of None \<Rightarrow> []
          | Some xs \<Rightarrow>
             map (\<lambda>i. xs ! ((unat (head c) + i) mod unat (capacity c))) [0..<unat (size_c c)]))"

section \<open>Closed forms used in the proofs\<close>

text \<open>
  The elements at \<open>S\<close> consecutive slots of a ring of \<open>C\<close> slots, from slot \<open>H\<close> on;
  and the container and heap that growth produces.
\<close>

definition ring :: "'a list \<Rightarrow> nat \<Rightarrow> nat \<Rightarrow> nat \<Rightarrow> 'a list" where
  "ring xs H C S = map (\<lambda>i. xs ! ((H + i) mod C)) [0..<S]"

definition grown :: "'a \<Rightarrow> CircularArray \<Rightarrow> 'a heap \<Rightarrow> CircularArray \<times> 'a heap" where
  "grown d c h =
     (c\<lparr>data_array := Some (length h), head := 0, tail := size_c c,
        capacity := 2 * max 1 (capacity c)\<rparr>,
      (let h2 = h @ [Some (window c h @
                  replicate (unat (2 * max 1 (capacity c)) - unat (size_c c)) d)]
       in case data_array c of None \<Rightarrow> h2 | Some a \<Rightarrow> h2[a := None]))"

section \<open>Basic facts\<close>

lemma bind_res_Inl [simp]: "bind_res (Inl e) f = Inl e"
  by (simp add: bind_res_def)

lemma bind_res_Inr [simp]: "bind_res (Inr x) f = f x"
  by (simp add: bind_res_def)

lemma bind_res_eq_Inr: "(bind_res m f = Inr y) = (\<exists>x. m = Inr x \<and> f x = Inr y)"
  by (cases m) simp_all

lemma cells_append [simp]: "cells (h @ [x]) a = (if a = length h then x else cells h a)"
  by (simp add: cells_def nth_append)

lemma cells_update [simp]:
  "cells (h[a := x]) b = (if b = a \<and> a < length h then x else cells h b)"
  by (simp add: cells_def)

lemma cells_Some_less: "cells h a = Some xs \<Longrightarrow> a < length h"
  by (simp add: cells_def split: if_splits)

lemma mod_add_inj_le:
  fixes H C i j :: nat
  assumes "i \<le> j" "j < C" "(H + i) mod C = (H + j) mod C"
  shows "i = j"
proof -
  from assms have "C dvd (H + j) - (H + i)"
    by (metis add_le_cancel_left mod_eq_dvd_iff_nat)
  then have "C dvd j - i" by simp
  with assms show ?thesis
    by (metis diff_is_0_eq dvd_imp_le le_antisym less_imp_diff_less not_less zero_less_diff nat_less_le)
qed

lemma mod_add_inj:
  fixes H C i j :: nat
  assumes "i < C" "j < C" "(H + i) mod C = (H + j) mod C"
  shows "i = j"
proof (cases "i \<le> j")
  case True
  with assms show ?thesis by (auto dest: mod_add_inj_le)
next
  case False
  then have "j \<le> i" by simp
  with assms show ?thesis by (auto dest: mod_add_inj_le[of j i C H])
qed

lemma for_up_rule:
  assumes "i \<le> n" and "I i s"
    and step: "\<And>j t. i \<le> j \<Longrightarrow> j < n \<Longrightarrow> I j t \<Longrightarrow> \<exists>t'. body j t = Inr t' \<and> I (j + 1) t'"
  shows "\<exists>s'. for_up i n body s = Inr s' \<and> I n s'"
  using assms
proof (induction i n body s rule: for_up.induct)
  case (1 i n body s)
  show ?case
  proof (cases "i < n")
    case False
    with "1.prems" have "i = n" by simp
    with "1.prems" show ?thesis by (simp add: for_up.simps)
  next
    case True
    from "1.prems"(3)[OF _ True "1.prems"(2)] obtain t where t: "body i s = Inr t" "I (i + 1) t"
      by auto
    from True have le: "i + 1 \<le> n" and lt: "i < i + 1"
      by unat_arith+
    have "\<exists>s'. for_up (i + 1) n body t = Inr s' \<and> I n s'"
    proof (rule "1.IH"[OF True t(1) le t(2)])
      fix j u assume "i + 1 \<le> j" "j < n" "I j u"
      with lt have "i \<le> j" by simp
      then show "\<exists>t'. body j u = Inr t' \<and> I (j + 1) t'"
        using \<open>j < n\<close> \<open>I j u\<close> by (rule "1.prems"(3))
    qed
    with True t show ?thesis
      by (subst for_up.simps) simp
  qed
qed

lemma for_down_rule:
  assumes "lo \<le> i" and "I i s"
    and step: "\<And>j t. lo < j \<Longrightarrow> j \<le> i \<Longrightarrow> I j t \<Longrightarrow> \<exists>t'. body j t = Inr t' \<and> I (j - 1) t'"
  shows "\<exists>s'. for_down i lo body s = Inr s' \<and> I lo s'"
  using assms
proof (induction i lo body s rule: for_down.induct)
  case (1 i lo body s)
  show ?case
  proof (cases "lo < i")
    case False
    with "1.prems" have "i = lo" by simp
    with "1.prems" show ?thesis by (simp add: for_down.simps)
  next
    case True
    from "1.prems"(3)[OF True _ "1.prems"(2)] obtain t where t: "body i s = Inr t" "I (i - 1) t"
      by auto
    from True have le: "lo \<le> i - 1" and lt: "i - 1 < i"
      by unat_arith+
    have "\<exists>s'. for_down (i - 1) lo body t = Inr s' \<and> I lo s'"
    proof (rule "1.IH"[OF True t(1) le t(2)])
      fix j u assume "lo < j" "j \<le> i - 1" "I j u"
      with lt have "j \<le> i" by simp
      with \<open>lo < j\<close> show "\<exists>t'. body j u = Inr t' \<and> I (j - 1) t'"
        using \<open>I j u\<close> by (rule "1.prems"(3))
    qed
    with True t show ?thesis
      by (subst for_down.simps) simp
  qed
qed

lemma for_up_preserves:
  assumes "for_up i n body s = Inr s'" and "P s"
    and "\<And>j t t'. P t \<Longrightarrow> body j t = Inr t' \<Longrightarrow> P t'"
  shows "P s'"
  using assms
proof (induction i n body s rule: for_up.induct)
  case (1 i n body s)
  show ?case
  proof (cases "i < n")
    case False
    with "1.prems" show ?thesis by (simp add: for_up.simps)
  next
    case True
    with "1.prems"(1) obtain t where t: "body i s = Inr t" "for_up (i + 1) n body t = Inr s'"
      by (subst (asm) for_up.simps) (auto split: sum.splits)
    from "1.prems"(3)[OF "1.prems"(2) t(1)] have "P t" .
    from "1.IH"[OF True t(1) t(2) this "1.prems"(3)] show ?thesis .
  qed
qed

lemma for_down_preserves:
  assumes "for_down i lo body s = Inr s'" and "P s"
    and "\<And>j t t'. P t \<Longrightarrow> body j t = Inr t' \<Longrightarrow> P t'"
  shows "P s'"
  using assms
proof (induction i lo body s rule: for_down.induct)
  case (1 i lo body s)
  show ?case
  proof (cases "lo < i")
    case False
    with "1.prems" show ?thesis by (simp add: for_down.simps)
  next
    case True
    with "1.prems"(1) obtain t where t: "body i s = Inr t" "for_down (i - 1) lo body t = Inr s'"
      by (subst (asm) for_down.simps) (auto split: sum.splits)
    from "1.prems"(3)[OF "1.prems"(2) t(1)] have "P t" .
    from "1.IH"[OF True t(1) t(2) this "1.prems"(3)] show ?thesis .
  qed
qed

lemma for_up_stop: "\<not> i < n \<Longrightarrow> for_up i n body s = Inr s"
  by (simp add: for_up.simps)

lemma for_down_stop: "\<not> lo < i \<Longrightarrow> for_down i lo body s = Inr s"
  by (simp add: for_down.simps)

lemma replicate_numeral_eval: "replicate (numeral k) x = x # replicate (pred_numeral k) x"
  by (simp add: numeral_eq_Suc)

lemma list_update_numeral_eval: "(x # xs)[numeral k := y] = x # xs[pred_numeral k := y]"
  by (simp add: numeral_eq_Suc)

lemmas heap_defs = new_array_def delete_array_def array_get_def array_set_def umod_def

lemmas eval_defs = heap_defs cells_def for_up.simps for_down.simps Let_def
  replicate_numeral_eval list_update_numeral_eval

lemma ExtandArray_default:
  "ExtandArray d CircularArray_default h =
     Inr (\<lparr>data_array = Some (length h), head = 0, tail = 0, size_c = 0, capacity = 2\<rparr>,
          h @ [Some [d, d]])"
  by (simp add: ExtandArray_def CircularArray_default_def new_array_def for_up_stop
      replicate_numeral_eval)

section \<open>The default constructor\<close>

text \<open>
  Claim C10. On a default-constructed container (capacity 0, no store), \<open>PushBack v\<close>
  and \<open>PushFront v\<close> both succeed, in any heap, and leave a container of size 1 and
  capacity 2 in which \<open>Front()\<close>, \<open>Back()\<close> and \<open>operator[](0)\<close> designate the same
  slot, which holds \<open>v\<close>.
\<close>

theorem push_on_default_constructed:
  "(\<exists>c' h'. PushBack d v CircularArray_default h = Inr (c', h') \<and>
      Size c' = 1 \<and> Capacity c' = 2 \<and>
      Front c' h' = Inr v \<and> Back c' h' = Inr v \<and> subscript c' 0 h' = Inr v \<and>
      subscript_ref c' 0 = Inr (Front_ref c') \<and> subscript_ref c' 0 = Inr (Back_ref c')) \<and>
   (\<exists>c' h'. PushFront d v CircularArray_default h = Inr (c', h') \<and>
      Size c' = 1 \<and> Capacity c' = 2 \<and>
      Front c' h' = Inr v \<and> Back c' h' = Inr v \<and> subscript c' 0 h' = Inr v \<and>
      subscript_ref c' 0 = Inr (Front_ref c') \<and> subscript_ref c' 0 = Inr (Back_ref c'))"
proof -
  have gd: "grow_if_full d CircularArray_default h = ExtandArray d CircularArray_default h"
    by (simp add: grow_if_full_def CircularArray_default_def)
  have b: "PushBack d v CircularArray_default h =
     Inr (\<lparr>data_array = Some (length h), head = 0, tail = 1, size_c = 1, capacity = 2\<rparr>,
          h @ [Some [v, d]])"
    by (simp add: PushBack_def gd ExtandArray_default heap_defs)
  have f: "PushFront d v CircularArray_default h =
     Inr (\<lparr>data_array = Some (length h), head = 1, tail = 0, size_c = 1, capacity = 2\<rparr>,
          h @ [Some [d, v]])"
    by (simp add: PushFront_def gd ExtandArray_default heap_defs)
  show ?thesis
    unfolding b f
    by (simp add: Size_def Capacity_def Front_def Back_def Front_ref_def Back_ref_def
        subscript_def subscript_ref_def heap_defs)
qed

section \<open>Reading a well-formed container\<close>

lemma wf_c_bounds:
  assumes "wf_c c h"
  shows "unat (capacity c) < 2 ^ 63" and "unat (size_c c) \<le> unat (capacity c)"
    and "capacity c \<noteq> 0 \<Longrightarrow> unat (head c) < unat (capacity c)"
    and "capacity c \<noteq> 0 \<Longrightarrow> unat (tail c) < unat (capacity c)"
  using assms by (simp_all add: wf_c_def word_le_nat_alt word_less_nat_alt)

lemma wf_c_store:
  assumes "wf_c c h" and "capacity c \<noteq> 0"
  obtains a xs where "data_array c = Some a" and "cells h a = Some xs"
    and "length xs = unat (capacity c)"
  using assms by (auto simp: wf_c_def store_ok_def split: option.splits)

lemma capacity_nonzero: "wf_c c h \<Longrightarrow> size_c c \<noteq> 0 \<Longrightarrow> capacity c \<noteq> 0"
  by (auto simp: wf_c_def)

lemma unat_slot:
  fixes hd i cap :: size_t
  assumes "unat hd < unat cap" and "unat cap < 2 ^ 63" and "unat i \<le> unat cap"
  shows "unat ((hd + i) mod cap) = (unat hd + unat i) mod unat cap"
proof -
  from assms have "unat hd + unat i < 2 ^ 64" by simp
  then have "unat (hd + i) = unat hd + unat i"
    by (simp add: unat_add_lem[THEN iffD1])
  then show ?thesis by (simp add: unat_mod)
qed

lemma unat_of_nat_small: "i < 2 ^ 63 \<Longrightarrow> unat (of_nat i :: size_t) = i"
  by (simp add: unat_of_nat)

lemma window_Some:
  "data_array c = Some a \<Longrightarrow> cells h a = Some xs \<Longrightarrow>
   window c h = map (\<lambda>i. xs ! ((unat (head c) + i) mod unat (capacity c))) [0..<unat (size_c c)]"
  by (simp add: window_def)

lemma window_empty: "size_c c = 0 \<Longrightarrow> window c h = []"
  by (simp add: window_def split: option.splits)

lemma length_window: "wf_c c h \<Longrightarrow> length (window c h) = unat (size_c c)"
  by (auto simp: window_def wf_c_def store_ok_def split: option.splits)

lemma subscript_wf:
  assumes wf: "wf_c c h" and i: "i < size_c c"
  shows "subscript c i h = Inr (window c h ! unat i)"
    and "subscript_ref c i = Inr ((head c + i) mod capacity c)"
proof -
  from i have "size_c c \<noteq> 0" by auto
  with wf have cap: "capacity c \<noteq> 0" by (rule capacity_nonzero)
  from wf cap obtain a xs where st: "data_array c = Some a" "cells h a = Some xs"
    "length xs = unat (capacity c)" by (rule wf_c_store)
  from i have il: "unat i < unat (size_c c)" by (simp add: word_less_nat_alt)
  with wf_c_bounds[OF wf] cap have sl:
    "unat ((head c + i) mod capacity c) = (unat (head c) + unat i) mod unat (capacity c)"
    by (intro unat_slot) simp_all
  from cap have "0 < unat (capacity c)" by (simp add: unat_gt_0)
  then have "(unat (head c) + unat i) mod unat (capacity c) < length xs"
    using st by simp
  with st sl il cap show "subscript c i h = Inr (window c h ! unat i)"
    by (simp add: subscript_def subscript_ref_def umod_def array_get_def window_Some)
  from cap show "subscript_ref c i = Inr ((head c + i) mod capacity c)"
    by (simp add: subscript_ref_def umod_def)
qed

lemma logical_window:
  assumes wf: "wf_c c h"
  shows "logical c h = map Inr (window c h)"
proof (rule nth_equalityI)
  show "length (logical c h) = length (map Inr (window c h))"
    using wf by (simp add: logical_def length_window)
next
  fix i assume "i < length (logical c h)"
  then have i: "i < unat (size_c c)" by (simp add: logical_def)
  with wf_c_bounds[OF wf] have "i < 2 ^ 63" by simp
  then have u: "unat (of_nat i :: size_t) = i" by (rule unat_of_nat_small)
  with i have "(of_nat i :: size_t) < size_c c" by (simp add: word_less_nat_alt)
  from subscript_wf(1)[OF wf this] u i wf show "logical c h ! i = map Inr (window c h) ! i"
    by (simp add: logical_def length_window)
qed

lemma Front_wf:
  assumes wf: "wf_c c h" and ne: "size_c c \<noteq> 0"
  shows "Front c h = Inr (hd (window c h))"
proof -
  from ne have "0 < size_c c" by (simp add: word_greater_zero_iff)
  from subscript_wf(1)[OF wf this] have s: "subscript c 0 h = Inr (window c h ! 0)" by simp
  from wf ne have cap: "capacity c \<noteq> 0" by (rule capacity_nonzero)
  with wf have "head c mod capacity c = head c"
    by (simp add: wf_c_def mod_word_less)
  with cap have "subscript c 0 h = Front c h"
    by (simp add: subscript_def subscript_ref_def umod_def Front_def Front_ref_def)
  moreover from wf ne have "window c h \<noteq> []"
    using length_window[OF wf] by (auto simp: unat_eq_zero)
  ultimately show ?thesis using s by (simp add: hd_conv_nth)
qed

section \<open>Growth\<close>

lemma take_replicate_step:
  assumes "j < length w" and "j < N"
  shows "(take j w @ replicate (N - j) d)[j := w ! j] = take (Suc j) w @ replicate (N - Suc j) d"
proof -
  from assms have "replicate (N - j) d = d # replicate (N - Suc j) d"
    by (cases "N - j") simp_all
  with assms show ?thesis
    by (simp add: list_update_append take_Suc_conv_app_nth)
qed

lemma store_ok_Some:
  assumes "wf_c c h" and "data_array c = Some a"
  obtains xs where "cells h a = Some xs" and "length xs = unat (capacity c)" and "a < length h"
  using assms by (auto simp: wf_c_def store_ok_def split: option.splits dest: cells_Some_less)

lemma unat_double_capacity:
  fixes cap :: size_t
  assumes "unat cap < 2 ^ 62"
  shows "unat (2 * max 1 cap) = 2 * max 1 (unat cap)"
proof -
  have m: "unat (max 1 cap) = max 1 (unat cap)"
    by (simp add: max_def word_le_nat_alt)
  with assms have "unat (2 :: size_t) * unat (max 1 cap) < 2 ^ 64"
    by (simp add: max_def split: if_splits)
  then have "unat (2 * max 1 cap) = unat (2 :: size_t) * unat (max 1 cap)"
    by (simp add: unat_mult_lem[THEN iffD1])
  with m show ?thesis by simp
qed

lemma ExtandArray_grown:
  assumes wf: "wf_c c h" and bound: "unat (capacity c) < 2 ^ 62"
  shows "ExtandArray d c h = Inr (grown d c h)"
proof -
  define c1 where "c1 = (if capacity c = 0 then c\<lparr>capacity := 1\<rparr> else c)"
  define N where "N = unat (2 * max 1 (capacity c))"
  define w where "w = window c h"
  define S where "S = unat (size_c c)"
  have cap1: "capacity c1 * 2 = 2 * max 1 (capacity c)"
    by (simp add: c1_def max_def word_le_nat_alt unat_gt_0 Suc_le_eq)
  have N: "N = 2 * max 1 (unat (capacity c))"
    unfolding N_def using bound by (rule unat_double_capacity)
  with bound have N63: "N < 2 ^ 63" by (simp add: max_def)
  from wf_c_bounds(2)[OF wf] N have SN: "S \<le> N" by (simp add: S_def)
  have lw: "length w = S" using wf by (simp add: w_def S_def length_window)
  have alloc: "new_array d (capacity c1 * 2) h = Inr (length h, h @ [Some (replicate N d)])"
    using N63 by (simp add: new_array_def cap1 N_def)
  let ?body = "\<lambda>i hh. bind_res (umod (head c1 + i) (capacity c1))
                 (\<lambda>k. bind_res (array_get (data_array c1) k hh)
                   (\<lambda>x. array_set (Some (length h)) i x hh))"
  let ?I = "\<lambda>j t. t = h @ [Some (take (unat j) w @ replicate (N - unat j) d)]"
  have "\<exists>s'. for_up 0 (size_c c1) ?body (h @ [Some (replicate N d)]) = Inr s' \<and>
          ?I (size_c c1) s'"
  proof (rule for_up_rule)
    show "0 \<le> size_c c1" by simp
    show "?I 0 (h @ [Some (replicate N d)])" by simp
  next
    fix j t assume j: "0 \<le> j" "j < size_c c1" and I: "?I j t"
    from j have sz: "j < size_c c" by (simp add: c1_def split: if_splits)
    then have "size_c c \<noteq> 0" by auto
    with wf have cap: "capacity c \<noteq> 0" by (rule capacity_nonzero)
    then have c1: "c1 = c" by (simp add: c1_def)
    from wf cap obtain a xs where st: "data_array c = Some a" "cells h a = Some xs"
      "length xs = unat (capacity c)" by (rule wf_c_store)
    from st have a: "a < length h" by (auto dest: cells_Some_less)
    from sz have jl: "unat j < S" by (simp add: word_less_nat_alt S_def)
    from sz have j1: "unat (j + 1) = Suc (unat j)" by unat_arith
    from wf_c_bounds[OF wf] cap jl have sl:
      "unat ((head c + j) mod capacity c) = (unat (head c) + unat j) mod unat (capacity c)"
      by (intro unat_slot) (simp_all add: S_def)
    from cap have "0 < unat (capacity c)" by (simp add: unat_gt_0)
    then have inb: "(unat (head c) + unat j) mod unat (capacity c) < length xs"
      using st by simp
    have rd: "xs ! ((unat (head c) + unat j) mod unat (capacity c)) = w ! unat j"
      using st jl by (simp add: w_def window_Some S_def)
    from jl SN lw have "(take (unat j) w @ replicate (N - unat j) d)[unat j := w ! unat j]
        = take (Suc (unat j)) w @ replicate (N - Suc (unat j)) d"
      by (intro take_replicate_step) simp_all
    with jl SN lw a st cap sl inb rd I
    show "\<exists>t'. ?body j t = Inr t' \<and> ?I (j + 1) t'"
      by (simp add: c1 umod_def array_get_def array_set_def j1 list_update_append)
  qed
  then have loop: "for_up 0 (size_c c1) ?body (h @ [Some (replicate N d)])
      = Inr (h @ [Some (w @ replicate (N - S) d)])"
    using lw by (auto simp: c1_def S_def split: if_splits)
  have del: "(case data_array c1 of None \<Rightarrow> Inr (h @ [Some (w @ replicate (N - S) d)])
        | Some a \<Rightarrow> delete_array a (h @ [Some (w @ replicate (N - S) d)]))
      = Inr (case data_array c of None \<Rightarrow> h @ [Some (w @ replicate (N - S) d)]
             | Some a \<Rightarrow> (h @ [Some (w @ replicate (N - S) d)])[a := None])"
  proof (cases "data_array c")
    case None
    then show ?thesis by (simp add: c1_def)
  next
    case (Some a)
    with wf obtain xs where "cells h a = Some xs" "a < length h"
      by (rule store_ok_Some)
    with Some show ?thesis by (simp add: c1_def delete_array_def)
  qed
  have rec: "c1\<lparr>data_array := Some (length h), head := 0, tail := size_c c1,
               capacity := capacity c1 * 2\<rparr>
      = c\<lparr>data_array := Some (length h), head := 0, tail := size_c c,
            capacity := 2 * max 1 (capacity c)\<rparr>"
    unfolding cap1 by (simp add: c1_def)
  show ?thesis
    unfolding ExtandArray_def Let_def c1_def[symmetric]
    by (simp add: alloc loop del rec) (simp add: grown_def N_def w_def S_def Let_def split: option.splits)
qed

lemma grown_fields [simp]:
  "data_array (fst (grown d c h)) = Some (length h)"
  "head (fst (grown d c h)) = 0"
  "tail (fst (grown d c h)) = size_c c"
  "size_c (fst (grown d c h)) = size_c c"
  "capacity (fst (grown d c h)) = 2 * max 1 (capacity c)"
  "length (snd (grown d c h)) = Suc (length h)"
  by (simp_all add: grown_def Let_def split: option.splits)

lemma grown_cells:
  assumes wf: "wf_c c h"
  shows "cells (snd (grown d c h)) b =
          (if b = length h
           then Some (window c h @ replicate (unat (2 * max 1 (capacity c)) - unat (size_c c)) d)
           else if data_array c = Some b then None else cells h b)"
proof (cases "data_array c")
  case None
  then show ?thesis by (simp add: grown_def)
next
  case (Some a)
  with wf obtain xs where "cells h a = Some xs" "a < length h"
    by (rule store_ok_Some)
  with Some show ?thesis by (auto simp: grown_def Let_def)
qed

lemma grown_wf:
  assumes wf: "wf_c c h" and bound: "unat (capacity c) < 2 ^ 62"
  shows "wf_c (fst (grown d c h)) (snd (grown d c h))"
    and "tail_ok (fst (grown d c h))"
    and "window (fst (grown d c h)) (snd (grown d c h)) = window c h"
    and "size_c c = capacity c \<Longrightarrow> size_c (fst (grown d c h)) < capacity (fst (grown d c h))"
proof -
  let ?N = "unat (2 * max 1 (capacity c))"
  have N: "?N = 2 * max 1 (unat (capacity c))"
    using bound by (rule unat_double_capacity)
  from wf_c_bounds(2)[OF wf] have S: "unat (size_c c) \<le> unat (capacity c)" .
  have lw: "length (window c h) = unat (size_c c)" using wf by (rule length_window)
  from N S have lt: "unat (size_c c) < ?N" by (simp add: max_def split: if_splits)
  then have szlt: "size_c c < 2 * max 1 (capacity c)" by (simp add: word_less_nat_alt)
  then have ne: "2 * max 1 (capacity c) \<noteq> 0" by auto
  from N bound have "?N < 2 ^ 63" by (simp add: max_def)
  with lt lw szlt ne show "wf_c (fst (grown d c h)) (snd (grown d c h))"
    by (simp add: wf_c_def store_ok_def grown_cells[OF wf] word_greater_zero_iff)
  from szlt ne show "tail_ok (fst (grown d c h))"
    by (simp add: tail_ok_def mod_word_less)
  have "map (\<lambda>i. (window c h @ replicate (?N - unat (size_c c)) d) ! (i mod ?N))
          [0..<unat (size_c c)] = window c h"
    using lt lw by (intro nth_equalityI) (simp_all add: nth_append)
  then show "window (fst (grown d c h)) (snd (grown d c h)) = window c h"
    by (simp add: window_def grown_cells[OF wf])
  from szlt show "size_c c = capacity c \<Longrightarrow>
      size_c (fst (grown d c h)) < capacity (fst (grown d c h))"
    by simp
qed

lemma ExtandArray_BadAlloc:
  assumes wf: "wf_c c h" and big: "2 ^ 62 \<le> unat (capacity c)"
  shows "ExtandArray d c h = Inl BadAlloc"
proof -
  from big have ne: "capacity c \<noteq> 0" by auto
  from wf_c_bounds(1)[OF wf] have "unat (capacity c) * unat (2 :: size_t) < 2 ^ 64" by simp
  then have "unat (capacity c * 2) = unat (capacity c) * unat (2 :: size_t)"
    by (simp add: unat_mult_lem[THEN iffD1])
  with big have "2 ^ 63 \<le> unat (capacity c * 2)" by simp
  with ne show ?thesis
    by (simp add: ExtandArray_def new_array_def)
qed

lemma grow_if_full_cases:
  assumes wf: "wf_c c h"
  shows "grow_if_full d c h =
          (if size_c c \<noteq> capacity c then Inr (c, h)
           else if unat (capacity c) < 2 ^ 62 then Inr (grown d c h) else Inl BadAlloc)"
  using ExtandArray_grown[OF wf] ExtandArray_BadAlloc[OF wf]
  by (simp add: grow_if_full_def not_less)

section \<open>Rings\<close>

lemma window_ring:
  "data_array c = Some a \<Longrightarrow> cells h a = Some xs \<Longrightarrow>
   window c h = ring xs (unat (head c)) (unat (capacity c)) (unat (size_c c))"
  by (simp add: window_def ring_def)

lemma length_ring [simp]: "length (ring xs H C S) = S"
  by (simp add: ring_def)

lemma nth_ring [simp]: "i < S \<Longrightarrow> ring xs H C S ! i = xs ! ((H + i) mod C)"
  by (simp add: ring_def)

lemma ring_snoc:
  assumes "S < C" and "length xs = C"
  shows "ring (xs[(H + S) mod C := v]) H C (Suc S) = ring xs H C S @ [v]"
proof (rule nth_equalityI)
  show "length (ring (xs[(H + S) mod C := v]) H C (Suc S)) = length (ring xs H C S @ [v])"
    by simp
next
  fix i assume "i < length (ring (xs[(H + S) mod C := v]) H C (Suc S))"
  then have i: "i < Suc S" by simp
  show "ring (xs[(H + S) mod C := v]) H C (Suc S) ! i = (ring xs H C S @ [v]) ! i"
  proof (cases "i = S")
    case True
    with assms show ?thesis by (simp add: nth_append)
  next
    case False
    with i have lt: "i < S" by simp
    with assms have "(H + i) mod C \<noteq> (H + S) mod C"
      by (auto dest: mod_add_inj[rotated 2])
    with lt i show ?thesis by (simp add: nth_append)
  qed
qed

lemma ring_cons:
  assumes "S < C" and "length xs = C" and "H < C"
    and H': "H' = (if H = 0 then C - 1 else H - 1)"
  shows "ring (xs[H' := v]) H' C (Suc S) = v # ring xs H C S"
proof (rule nth_equalityI)
  show "length (ring (xs[H' := v]) H' C (Suc S)) = length (v # ring xs H C S)"
    by simp
next
  fix i assume "i < length (ring (xs[H' := v]) H' C (Suc S))"
  then have i: "i < Suc S" by simp
  from assms have H'C: "H' < C" by (simp split: if_splits)
  show "ring (xs[H' := v]) H' C (Suc S) ! i = (v # ring xs H C S) ! i"
  proof (cases i)
    case 0
    with H'C assms show ?thesis by simp
  next
    case (Suc k)
    with i have k: "k < S" by simp
    have step: "(H' + Suc k) mod C = (H + k) mod C"
    proof (cases "H = 0")
      case True
      with H' assms have "H' + Suc k = C + (H + k)" by simp
      then show ?thesis by (metis mod_add_self1)
    next
      case False
      with H' have "H = Suc H'" by simp
      then show ?thesis by simp
    qed
    from k assms have "Suc k < C" by simp
    with H'C assms have "(H' + Suc k) mod C \<noteq> (H' + 0) mod C"
      by (metis mod_add_inj Zero_not_Suc less_nat_zero_code not_gr_zero less_trans)
    with H'C have "(H' + Suc k) mod C \<noteq> H'" by simp
    with Suc k i step show ?thesis by simp
  qed
qed

lemma ring_tl: "ring xs ((H + 1) mod C) C (S - 1) = tl (ring xs H C S)"
proof (rule nth_equalityI)
  show "length (ring xs ((H + 1) mod C) C (S - 1)) = length (tl (ring xs H C S))"
    by simp
next
  fix i assume "i < length (ring xs ((H + 1) mod C) C (S - 1))"
  then have i: "i < S - 1" by simp
  have "((H + 1) mod C + i) mod C = (H + Suc i) mod C"
    by (simp add: mod_add_left_eq)
  with i show "ring xs ((H + 1) mod C) C (S - 1) ! i = tl (ring xs H C S) ! i"
    by (simp add: nth_tl)
qed

lemma ring_butlast: "ring xs H C (S - 1) = butlast (ring xs H C S)"
  by (rule nth_equalityI) (simp_all add: nth_butlast)

lemma ring_last: "0 < S \<Longrightarrow> last (ring xs H C S) = xs ! ((H + (S - 1)) mod C)"
  by (cases S) (simp_all add: ring_def)

lemma ring_update:
  assumes "i < S" and "S \<le> C" and "length xs = C"
  shows "ring (xs[(H + i) mod C := v]) H C S = (ring xs H C S)[i := v]"
proof (rule nth_equalityI)
  show "length (ring (xs[(H + i) mod C := v]) H C S) = length ((ring xs H C S)[i := v])"
    by simp
next
  fix k assume "k < length (ring (xs[(H + i) mod C := v]) H C S)"
  then have k: "k < S" by simp
  show "ring (xs[(H + i) mod C := v]) H C S ! k = (ring xs H C S)[i := v] ! k"
  proof (cases "k = i")
    case True
    with assms show ?thesis by simp
  next
    case False
    with k assms have "(H + k) mod C \<noteq> (H + i) mod C"
      by (metis mod_add_inj less_le_trans)
    with k False show ?thesis by simp
  qed
qed

lemma back_slot_nat:
  fixes H S C :: nat
  assumes "0 < S" and "0 < C"
  shows "((H + S) mod C + (C - 1)) mod C = (H + (S - 1)) mod C"
proof -
  have "((H + S) mod C + (C - 1)) mod C = (H + S + (C - 1)) mod C"
    by (simp add: mod_add_left_eq)
  also from assms have "H + S + (C - 1) = (H + (S - 1)) + C" by simp
  also have "(H + (S - 1) + C) mod C = (H + (S - 1)) mod C" by simp
  finally show ?thesis .
qed

section \<open>The operations at both ends\<close>

lemma wf_c_rep:
  assumes "wf_c c h" and "capacity c \<noteq> 0"
  obtains a xs where "data_array c = Some a" and "cells h a = Some xs"
    and "length xs = unat (capacity c)" and "a < length h"
    and "window c h = ring xs (unat (head c)) (unat (capacity c)) (unat (size_c c))"
proof -
  from assms obtain a xs where st: "data_array c = Some a" "cells h a = Some xs"
    "length xs = unat (capacity c)" by (rule wf_c_store)
  moreover from st have "a < length h" by (auto dest: cells_Some_less)
  moreover from st have
    "window c h = ring xs (unat (head c)) (unat (capacity c)) (unat (size_c c))"
    by (simp add: window_ring)
  ultimately show thesis by (rule that)
qed

lemma wf_cI:
  assumes "data_array c = Some a" and "cells h a = Some xs"
    and "length xs = unat (capacity c)" and "unat (capacity c) < 2 ^ 63"
    and "unat (size_c c) \<le> unat (capacity c)"
    and "unat (head c) < unat (capacity c)" and "unat (tail c) < unat (capacity c)"
  shows "wf_c c h"
  using assms by (simp add: wf_c_def store_ok_def word_le_nat_alt word_less_nat_alt)

lemma unat_mod_less: "(cap :: size_t) \<noteq> 0 \<Longrightarrow> unat (x mod cap) < unat cap"
  by (simp add: unat_mod unat_gt_0)

lemma unat_succ_slot:
  fixes x cap :: size_t
  assumes "unat x < unat cap" and "unat cap < 2 ^ 63"
  shows "unat ((x + 1) mod cap) = (unat x + 1) mod unat cap"
  using unat_slot[of x cap 1] assms by simp

lemma unat_inc: "(s :: size_t) < cap \<Longrightarrow> unat (s + 1) = Suc (unat s)"
  by unat_arith

lemma unat_dec: "(s :: size_t) \<noteq> 0 \<Longrightarrow> unat (s - 1) = unat s - 1"
  by (rule unat_minus_one)

lemma tail_ok_nat:
  assumes wf: "wf_c c h" and cap: "capacity c \<noteq> 0"
  shows "tail_ok c \<longleftrightarrow>
         unat (tail c) = (unat (head c) + unat (size_c c)) mod unat (capacity c)"
proof -
  from wf_c_bounds[OF wf] cap have
    "unat ((head c + size_c c) mod capacity c)
       = (unat (head c) + unat (size_c c)) mod unat (capacity c)"
    by (intro unat_slot) simp_all
  with cap show ?thesis
    by (simp add: tail_ok_def word_unat_eq_iff)
qed

lemma tail_ok_advance:
  assumes wf: "wf_c c h" and nf: "size_c c < capacity c" and tk: "tail_ok c"
  shows "tail_ok (c\<lparr>tail := (tail c + 1) mod capacity c, size_c := size_c c + 1\<rparr>)"
proof -
  from nf have cap: "capacity c \<noteq> 0" by auto
  from wf cap obtain a xs where r: "data_array c = Some a" "cells h a = Some xs"
    "length xs = unat (capacity c)" by (rule wf_c_store)
  note b = wf_c_bounds[OF wf]
  from nf have S: "unat (size_c c + 1) = Suc (unat (size_c c))" by (rule unat_inc)
  from nf have Slt: "unat (size_c c) < unat (capacity c)" by (simp add: word_less_nat_alt)
  let ?c' = "c\<lparr>tail := (tail c + 1) mod capacity c, size_c := size_c c + 1\<rparr>"
  have wf': "wf_c ?c' h"
    using r b cap S Slt by (intro wf_cI[where a = a and xs = xs]) (simp_all add: unat_mod_less)
  from tk have T: "unat (tail c) = (unat (head c) + unat (size_c c)) mod unat (capacity c)"
    by (simp add: tail_ok_nat[OF wf cap])
  have "unat (tail ?c') = (unat (tail c) + 1) mod unat (capacity c)"
    using b cap by (simp add: unat_succ_slot)
  also have "\<dots> = (unat (head c) + Suc (unat (size_c c))) mod unat (capacity c)"
    unfolding T by (simp add: mod_Suc_eq)
  finally show ?thesis
    using S by (simp add: tail_ok_nat[OF wf'] cap)
qed

lemma PushBack_nonfull:
  assumes wf: "wf_c c h" and nf: "size_c c < capacity c"
  shows "\<exists>c' h'. bind_res (array_set (data_array c) (tail c) v h) (\<lambda>h2.
            bind_res (umod (tail c + 1) (capacity c))
              (\<lambda>t. Inr (c\<lparr>tail := t, size_c := size_c c + 1\<rparr>, h2))) = Inr (c', h') \<and>
          wf_c c' h' \<and> size_c c' = size_c c + 1 \<and> length h' = length h \<and>
          (tail_ok c \<longrightarrow> tail_ok c' \<and> window c' h' = window c h @ [v])"
proof -
  from nf have cap: "capacity c \<noteq> 0" by auto
  from wf cap obtain a xs where r: "data_array c = Some a" "cells h a = Some xs"
    "length xs = unat (capacity c)" "a < length h"
    "window c h = ring xs (unat (head c)) (unat (capacity c)) (unat (size_c c))"
    by (rule wf_c_rep)
  note b = wf_c_bounds[OF wf]
  from nf have S: "unat (size_c c + 1) = Suc (unat (size_c c))" by (rule unat_inc)
  from nf have Slt: "unat (size_c c) < unat (capacity c)" by (simp add: word_less_nat_alt)
  let ?c' = "c\<lparr>tail := (tail c + 1) mod capacity c, size_c := size_c c + 1\<rparr>"
  let ?h' = "h[a := Some (xs[unat (tail c) := v])]"
  have run: "bind_res (array_set (data_array c) (tail c) v h) (\<lambda>h2.
            bind_res (umod (tail c + 1) (capacity c))
              (\<lambda>t. Inr (c\<lparr>tail := t, size_c := size_c c + 1\<rparr>, h2))) = Inr (?c', ?h')"
    using r b cap by (simp add: array_set_def umod_def)
  have wf': "wf_c ?c' ?h'"
    using r b cap S Slt by (intro wf_cI[where a = a and xs = "xs[unat (tail c) := v]"])
      (simp_all add: unat_mod_less)
  have tl: "tail_ok ?c' \<and> window ?c' ?h' = window c h @ [v]" if tk: "tail_ok c"
  proof -
    from tk have T: "unat (tail c) = (unat (head c) + unat (size_c c)) mod unat (capacity c)"
      by (simp add: tail_ok_nat[OF wf cap])
    have "window ?c' ?h' = window c h @ [v]"
      using r S Slt T by (simp add: window_ring ring_snoc)
    with tail_ok_advance[OF wf nf tk] show ?thesis ..
  qed
  from run wf' tl show ?thesis by (intro exI[of _ ?c'] exI[of _ ?h']) simp
qed

lemma PushFront_nonfull:
  assumes wf: "wf_c c h" and nf: "size_c c < capacity c"
  shows "\<exists>c' h'. (let c2 = (if head c = 0 then c\<lparr>head := capacity c - 1\<rparr>
                            else c\<lparr>head := head c - 1\<rparr>) in
            bind_res (array_set (data_array c2) (head c2) v h)
              (\<lambda>h2. Inr (c2\<lparr>size_c := size_c c2 + 1\<rparr>, h2))) = Inr (c', h') \<and>
          wf_c c' h' \<and> size_c c' = size_c c + 1 \<and> length h' = length h \<and>
          window c' h' = v # window c h \<and> (tail_ok c \<longrightarrow> tail_ok c')"
proof -
  from nf have cap: "capacity c \<noteq> 0" by auto
  from wf cap obtain a xs where r: "data_array c = Some a" "cells h a = Some xs"
    "length xs = unat (capacity c)" "a < length h"
    "window c h = ring xs (unat (head c)) (unat (capacity c)) (unat (size_c c))"
    by (rule wf_c_rep)
  note b = wf_c_bounds[OF wf]
  from nf have S: "unat (size_c c + 1) = Suc (unat (size_c c))" by (rule unat_inc)
  from nf have Slt: "unat (size_c c) < unat (capacity c)" by (simp add: word_less_nat_alt)
  define hd' where "hd' = (if head c = 0 then capacity c - 1 else head c - 1)"
  have H': "unat hd' = (if unat (head c) = 0 then unat (capacity c) - 1 else unat (head c) - 1)"
    using cap by (simp add: hd'_def unat_dec unat_eq_zero)
  with b cap have H'lt: "unat hd' < unat (capacity c)"
    by (simp add: unat_gt_0 split: if_splits)
  let ?c' = "c\<lparr>head := hd', size_c := size_c c + 1\<rparr>"
  let ?h' = "h[a := Some (xs[unat hd' := v])]"
  have run: "(let c2 = (if head c = 0 then c\<lparr>head := capacity c - 1\<rparr>
                            else c\<lparr>head := head c - 1\<rparr>) in
            bind_res (array_set (data_array c2) (head c2) v h)
              (\<lambda>h2. Inr (c2\<lparr>size_c := size_c c2 + 1\<rparr>, h2))) = Inr (?c', ?h')"
  proof (cases "head c = 0")
    case True
    with r H'lt show ?thesis by (simp add: array_set_def hd'_def Let_def)
  next
    case False
    with r H'lt show ?thesis by (simp add: array_set_def hd'_def Let_def)
  qed
  have wf': "wf_c ?c' ?h'"
    using r b cap S Slt H'lt by (intro wf_cI[where a = a and xs = "xs[unat hd' := v]"]) simp_all
  have win: "window ?c' ?h' = v # window c h"
    using r S Slt b cap H' by (simp add: window_ring ring_cons)
  have tl: "tail_ok ?c'" if tk: "tail_ok c"
  proof -
    from tk have T: "unat (tail c) = (unat (head c) + unat (size_c c)) mod unat (capacity c)"
      by (simp add: tail_ok_nat[OF wf cap])
    have "(unat hd' + Suc (unat (size_c c))) mod unat (capacity c)
        = (unat (head c) + unat (size_c c)) mod unat (capacity c)"
    proof (cases "unat (head c) = 0")
      case True
      with H' cap have "unat hd' + Suc (unat (size_c c)) = unat (size_c c) + unat (capacity c)"
        by (simp add: unat_gt_0 Suc_leI)
      with True show ?thesis by (metis add_0 mod_add_self2)
    next
      case False
      with H' show ?thesis by simp
    qed
    with T S show ?thesis by (simp add: tail_ok_nat[OF wf'] cap)
  qed
  from run wf' win tl show ?thesis by (intro exI[of _ ?c'] exI[of _ ?h']) simp
qed

lemma grow_if_full_ok:
  assumes wf: "wf_c c h" and bound: "size_c c = capacity c \<longrightarrow> unat (capacity c) < 2 ^ 62"
  shows "\<exists>c1 h1. grow_if_full d c h = Inr (c1, h1) \<and> wf_c c1 h1 \<and>
           size_c c1 < capacity c1 \<and> size_c c1 = size_c c \<and>
           window c1 h1 = window c h \<and> (tail_ok c \<longrightarrow> tail_ok c1)"
proof (cases "size_c c = capacity c")
  case True
  with bound have b: "unat (capacity c) < 2 ^ 62" by simp
  from True b have "grow_if_full d c h = Inr (fst (grown d c h), snd (grown d c h))"
    by (simp add: grow_if_full_cases[OF wf])
  with grown_wf[OF wf b, of d] True show ?thesis
    by (intro exI[of _ "fst (grown d c h)"] exI[of _ "snd (grown d c h)"]) simp
next
  case False
  with wf have "size_c c < capacity c" by (auto simp: wf_c_def)
  with False wf show ?thesis by (simp add: grow_if_full_cases[OF wf])
qed

lemma grow_if_full_Inr:
  assumes wf: "wf_c c h" and "grow_if_full d c h = Inr r"
  shows "size_c c = capacity c \<longrightarrow> unat (capacity c) < 2 ^ 62"
  using assms(2) by (simp add: grow_if_full_cases[OF wf] split: if_splits)

lemma PushBack_ok:
  assumes wf: "wf_c c h" and bound: "size_c c = capacity c \<longrightarrow> unat (capacity c) < 2 ^ 62"
  shows "\<exists>c' h'. PushBack d v c h = Inr (c', h') \<and> wf_c c' h' \<and>
           size_c c' = size_c c + 1 \<and>
           (tail_ok c \<longrightarrow> tail_ok c' \<and> window c' h' = window c h @ [v])"
proof -
  from grow_if_full_ok[OF wf bound, of d] obtain c1 h1 where
    g: "grow_if_full d c h = Inr (c1, h1)" "wf_c c1 h1" "size_c c1 < capacity c1"
      "size_c c1 = size_c c" "window c1 h1 = window c h" "tail_ok c \<longrightarrow> tail_ok c1"
    by blast
  from PushBack_nonfull[OF g(2,3), of v] g show ?thesis
    by (auto simp: PushBack_def)
qed

lemma PushFront_ok:
  assumes wf: "wf_c c h" and bound: "size_c c = capacity c \<longrightarrow> unat (capacity c) < 2 ^ 62"
  shows "\<exists>c' h'. PushFront d v c h = Inr (c', h') \<and> wf_c c' h' \<and>
           size_c c' = size_c c + 1 \<and> window c' h' = v # window c h \<and>
           (tail_ok c \<longrightarrow> tail_ok c')"
proof -
  from grow_if_full_ok[OF wf bound, of d] obtain c1 h1 where
    g: "grow_if_full d c h = Inr (c1, h1)" "wf_c c1 h1" "size_c c1 < capacity c1"
      "size_c c1 = size_c c" "window c1 h1 = window c h" "tail_ok c \<longrightarrow> tail_ok c1"
    by blast
  from PushFront_nonfull[OF g(2,3), of v] g show ?thesis
    by (auto simp: PushFront_def)
qed

lemma PopFront_ok:
  assumes wf: "wf_c c h" and ne: "size_c c \<noteq> 0"
  shows "\<exists>c'. PopFront c = Inr c' \<and> wf_c c' h \<and> size_c c' = size_c c - 1 \<and>
           window c' h = tl (window c h) \<and> (tail_ok c \<longrightarrow> tail_ok c')"
proof -
  from wf ne have cap: "capacity c \<noteq> 0" by (rule capacity_nonzero)
  from wf cap obtain a xs where r: "data_array c = Some a" "cells h a = Some xs"
    "length xs = unat (capacity c)" "a < length h"
    "window c h = ring xs (unat (head c)) (unat (capacity c)) (unat (size_c c))"
    by (rule wf_c_rep)
  note b = wf_c_bounds[OF wf]
  from ne have S: "unat (size_c c - 1) = unat (size_c c) - 1" by (rule unat_dec)
  from ne have Spos: "0 < unat (size_c c)" by (simp add: unat_gt_0)
  let ?c' = "c\<lparr>head := (head c + 1) mod capacity c, size_c := size_c c - 1\<rparr>"
  have run: "PopFront c = Inr ?c'"
    using cap by (simp add: PopFront_def umod_def)
  have H: "unat ((head c + 1) mod capacity c) = (unat (head c) + 1) mod unat (capacity c)"
    using b cap by (simp add: unat_succ_slot)
  have wf': "wf_c ?c' h"
    using r b cap S by (intro wf_cI[where a = a and xs = xs]) (simp_all add: unat_mod_less)
  have win: "window ?c' h = tl (window c h)"
    using r S ring_tl[of xs "unat (head c)" "unat (capacity c)" "unat (size_c c)"]
    by (simp add: window_ring H)
  have tl: "tail_ok ?c'" if tk: "tail_ok c"
  proof -
    from tk have T: "unat (tail c) = (unat (head c) + unat (size_c c)) mod unat (capacity c)"
      by (simp add: tail_ok_nat[OF wf cap])
    have "((unat (head c) + 1) mod unat (capacity c) + (unat (size_c c) - 1)) mod unat (capacity c)
        = (unat (head c) + 1 + (unat (size_c c) - 1)) mod unat (capacity c)"
      by (rule mod_add_left_eq)
    also from Spos have "unat (head c) + 1 + (unat (size_c c) - 1) = unat (head c) + unat (size_c c)"
      by simp
    finally show ?thesis
      using T S H by (simp add: tail_ok_nat[OF wf'] cap)
  qed
  from run wf' win tl show ?thesis by (intro exI[of _ ?c']) simp
qed

lemma unat_back_step:
  fixes t cap :: size_t
  assumes "cap \<noteq> 0" and "unat t < unat cap"
  shows "unat (if t \<noteq> 0 then t - 1 else cap - 1) = (unat t + (unat cap - 1)) mod unat cap"
proof (cases "t = 0")
  case True
  with assms show ?thesis by (simp add: unat_dec unat_gt_0)
next
  case False
  then have "0 < unat t" by (simp add: unat_gt_0)
  with assms have "unat t + (unat cap - 1) = (unat t - 1) + unat cap" by simp
  moreover from assms have "(unat t - 1 + unat cap) mod unat cap = unat t - 1" by simp
  ultimately show ?thesis using False by (simp add: unat_dec)
qed

lemma PopBack_ok:
  assumes wf: "wf_c c h" and ne: "size_c c \<noteq> 0"
  shows "wf_c (PopBack c) h" and "size_c (PopBack c) = size_c c - 1"
    and "window (PopBack c) h = butlast (window c h)"
    and "tail_ok c \<Longrightarrow> tail_ok (PopBack c)"
proof -
  from wf ne have cap: "capacity c \<noteq> 0" by (rule capacity_nonzero)
  from wf cap obtain a xs where r: "data_array c = Some a" "cells h a = Some xs"
    "length xs = unat (capacity c)" "a < length h"
    "window c h = ring xs (unat (head c)) (unat (capacity c)) (unat (size_c c))"
    by (rule wf_c_rep)
  note b = wf_c_bounds[OF wf]
  from ne have S: "unat (size_c c - 1) = unat (size_c c) - 1" by (rule unat_dec)
  from ne have Spos: "0 < unat (size_c c)" by (simp add: unat_gt_0)
  let ?t = "if tail c \<noteq> 0 then tail c - 1 else capacity c - 1"
  have pb: "PopBack c = c\<lparr>tail := ?t, size_c := size_c c - 1\<rparr>"
    by (simp add: PopBack_def Let_def)
  have T': "unat ?t = (unat (tail c) + (unat (capacity c) - 1)) mod unat (capacity c)"
    using cap b by (intro unat_back_step) simp_all
  from cap have "0 < unat (capacity c)" by (simp add: unat_gt_0)
  with T' have T'lt: "unat ?t < unat (capacity c)" by simp
  show wf': "wf_c (PopBack c) h"
    unfolding pb using r b cap S T'lt
    by (intro wf_cI[where a = a and xs = xs]) simp_all
  show "size_c (PopBack c) = size_c c - 1" by (simp add: pb)
  show "window (PopBack c) h = butlast (window c h)"
    using r S ring_butlast[of xs "unat (head c)" "unat (capacity c)" "unat (size_c c)"]
    by (simp add: pb window_ring)
  show "tail_ok (PopBack c)" if tk: "tail_ok c"
  proof -
    from tk have T: "unat (tail c) = (unat (head c) + unat (size_c c)) mod unat (capacity c)"
      by (simp add: tail_ok_nat[OF wf cap])
    from Spos \<open>0 < unat (capacity c)\<close>
    have "unat ?t = (unat (head c) + (unat (size_c c) - 1)) mod unat (capacity c)"
      unfolding T' T by (rule back_slot_nat)
    with S show ?thesis
      using tail_ok_nat[OF wf'] cap by (simp add: pb)
  qed
qed

lemma Back_ok:
  assumes wf: "wf_c c h" and tk: "tail_ok c" and ne: "size_c c \<noteq> 0"
  shows "Back c h = Inr (last (window c h))"
    and "subscript_ref c (size_c c - 1) = Inr (Back_ref c)"
    and "Back c h = subscript c (size_c c - 1) h"
proof -
  from wf ne have cap: "capacity c \<noteq> 0" by (rule capacity_nonzero)
  from wf cap obtain a xs where r: "data_array c = Some a" "cells h a = Some xs"
    "length xs = unat (capacity c)" "a < length h"
    "window c h = ring xs (unat (head c)) (unat (capacity c)) (unat (size_c c))"
    by (rule wf_c_rep)
  note b = wf_c_bounds[OF wf]
  from ne have S: "unat (size_c c - 1) = unat (size_c c) - 1" by (rule unat_dec)
  from ne have Spos: "0 < unat (size_c c)" by (simp add: unat_gt_0)
  from cap have Cpos: "0 < unat (capacity c)" by (simp add: unat_gt_0)
  from tk have T: "unat (tail c) = (unat (head c) + unat (size_c c)) mod unat (capacity c)"
    by (simp add: tail_ok_nat[OF wf cap])
  have "unat (Back_ref c) = (unat (tail c) + (unat (capacity c) - 1)) mod unat (capacity c)"
    unfolding Back_ref_def using cap b by (intro unat_back_step) simp_all
  also from Spos Cpos have "\<dots> = (unat (head c) + (unat (size_c c) - 1)) mod unat (capacity c)"
    unfolding T by (rule back_slot_nat)
  finally have B: "unat (Back_ref c) = (unat (head c) + (unat (size_c c) - 1)) mod unat (capacity c)" .
  with Cpos r show 1: "Back c h = Inr (last (window c h))"
    using Spos by (simp add: Back_def array_get_def ring_last)
  have "unat ((head c + (size_c c - 1)) mod capacity c)
      = (unat (head c) + unat (size_c c - 1)) mod unat (capacity c)"
    using b cap S by (intro unat_slot) simp_all
  with B S have "(head c + (size_c c - 1)) mod capacity c = Back_ref c"
    by (simp add: word_unat_eq_iff)
  with cap show 2: "subscript_ref c (size_c c - 1) = Inr (Back_ref c)"
    by (simp add: subscript_ref_def umod_def)
  then show "Back c h = subscript c (size_c c - 1) h"
    by (simp add: subscript_def Back_def)
qed

lemma Assign_ok:
  assumes wf: "wf_c c h" and i: "i < size_c c"
  shows "\<exists>h'. perform d (OpAssign i v) c h = Inr (c, h') \<and> wf_c c h' \<and>
           window c h' = (window c h)[unat i := v]"
proof -
  from i have ne: "size_c c \<noteq> 0" by auto
  from wf ne have cap: "capacity c \<noteq> 0" by (rule capacity_nonzero)
  from wf cap obtain a xs where r: "data_array c = Some a" "cells h a = Some xs"
    "length xs = unat (capacity c)" "a < length h"
    "window c h = ring xs (unat (head c)) (unat (capacity c)) (unat (size_c c))"
    by (rule wf_c_rep)
  note b = wf_c_bounds[OF wf]
  from i have il: "unat i < unat (size_c c)" by (simp add: word_less_nat_alt)
  with b cap have sl:
    "unat ((head c + i) mod capacity c) = (unat (head c) + unat i) mod unat (capacity c)"
    by (intro unat_slot) simp_all
  from cap have Cpos: "0 < unat (capacity c)" by (simp add: unat_gt_0)
  let ?k = "(unat (head c) + unat i) mod unat (capacity c)"
  let ?h' = "h[a := Some (xs[?k := v])]"
  have run: "perform d (OpAssign i v) c h = Inr (c, ?h')"
    using r cap sl Cpos by (simp add: subscript_ref_def umod_def array_set_def)
  have wf': "wf_c c ?h'"
    using r b cap by (intro wf_cI[where a = a and xs = "xs[?k := v]"]) simp_all
  have "window c ?h' = (window c h)[unat i := v]"
    using r il b by (simp add: window_ring ring_update)
  with run wf' show ?thesis by blast
qed

section \<open>Runs of pushes and pops\<close>

lemma unat_inc_small: "unat (s :: size_t) < 2 ^ 63 \<Longrightarrow> unat (s + 1) = Suc (unat s)"
proof -
  assume "unat s < 2 ^ 63"
  then have "unat s + unat (1 :: size_t) < 2 ^ 64" by simp
  then have "unat (s + 1) = unat s + unat (1 :: size_t)"
    by (simp add: unat_add_lem[THEN iffD1])
  then show ?thesis by simp
qed

lemma push_back_all_ok:
  assumes "wf_c c h" and "tail_ok c" and "unat (size_c c) + length vs < 2 ^ 62"
  shows "\<exists>c' h'. push_back_all d vs c h = Inr (c', h') \<and> wf_c c' h' \<and> tail_ok c' \<and>
           window c' h' = window c h @ vs \<and> unat (size_c c') = unat (size_c c) + length vs"
  using assms
proof (induction vs arbitrary: c h)
  case Nil
  then show ?case by simp
next
  case (Cons v vs)
  from Cons.prems have lt: "unat (size_c c) < 2 ^ 62" by simp
  with wf_c_bounds(2)[OF Cons.prems(1)]
  have "size_c c = capacity c \<longrightarrow> unat (capacity c) < 2 ^ 62" by auto
  from PushBack_ok[OF Cons.prems(1) this, of d v] Cons.prems(2) obtain c1 h1 where
    p: "PushBack d v c h = Inr (c1, h1)" "wf_c c1 h1" "size_c c1 = size_c c + 1"
      "tail_ok c1" "window c1 h1 = window c h @ [v]"
    by blast
  from lt have "unat (size_c c + 1) = Suc (unat (size_c c))"
    by (intro unat_inc_small) simp
  with p(3) have sz: "unat (size_c c1) = Suc (unat (size_c c))" by simp
  with Cons.prems have "unat (size_c c1) + length vs < 2 ^ 62" by simp
  from Cons.IH[OF p(2) p(4) this] obtain c' h' where
    "push_back_all d vs c1 h1 = Inr (c', h')" "wf_c c' h'" "tail_ok c'"
    "window c' h' = window c1 h1 @ vs" "unat (size_c c') = unat (size_c c1) + length vs"
    by blast
  with p sz show ?case by simp
qed

text \<open>
  Growth keeps the logical sequence: pushing any values to the back of a well-formed
  container whose tail pointer is in step appends them, wherever \<open>head\<close> is.
\<close>

lemma push_back_all_logical:
  assumes "wf_c c h" and "tail_ok c" and "unat (size_c c) + length vs < 2 ^ 62"
  shows "\<exists>c' h'. push_back_all d vs c h = Inr (c', h') \<and>
           logical c' h' = logical c h @ map Inr vs"
proof -
  from push_back_all_ok[OF assms, of d] obtain c' h' where
    "push_back_all d vs c h = Inr (c', h')" "wf_c c' h'" "window c' h' = window c h @ vs"
    by blast
  with assms(1) show ?thesis by (auto simp: logical_window)
qed

lemma push_front_all_ok:
  assumes "wf_c c h" and "tail_ok c" and "unat (size_c c) + length vs < 2 ^ 62"
  shows "\<exists>c' h'. push_front_all d vs c h = Inr (c', h') \<and> wf_c c' h' \<and> tail_ok c' \<and>
           window c' h' = rev vs @ window c h \<and> unat (size_c c') = unat (size_c c) + length vs"
  using assms
proof (induction vs arbitrary: c h)
  case Nil
  then show ?case by simp
next
  case (Cons v vs)
  from Cons.prems have lt: "unat (size_c c) < 2 ^ 62" by simp
  with wf_c_bounds(2)[OF Cons.prems(1)]
  have "size_c c = capacity c \<longrightarrow> unat (capacity c) < 2 ^ 62" by auto
  from PushFront_ok[OF Cons.prems(1) this, of d v] Cons.prems(2) obtain c1 h1 where
    p: "PushFront d v c h = Inr (c1, h1)" "wf_c c1 h1" "size_c c1 = size_c c + 1"
      "tail_ok c1" "window c1 h1 = v # window c h"
    by blast
  from lt have "unat (size_c c + 1) = Suc (unat (size_c c))"
    by (intro unat_inc_small) simp
  with p(3) have sz: "unat (size_c c1) = Suc (unat (size_c c))" by simp
  with Cons.prems have "unat (size_c c1) + length vs < 2 ^ 62" by simp
  from Cons.IH[OF p(2) p(4) this] obtain c' h' where
    "push_front_all d vs c1 h1 = Inr (c', h')" "wf_c c' h'" "tail_ok c'"
    "window c' h' = rev vs @ window c1 h1" "unat (size_c c') = unat (size_c c1) + length vs"
    by blast
  with p sz show ?case by simp
qed

lemma drain_front_ok:
  assumes "wf_c c h" and "unat (size_c c) = n"
  shows "drain_front n c h = Inr (window c h)"
  using assms
proof (induction n arbitrary: c)
  case 0
  then show ?case by (simp add: window_empty unat_eq_zero)
next
  case (Suc n)
  then have ne: "size_c c \<noteq> 0" by auto
  from PopFront_ok[OF Suc.prems(1) ne] obtain c' where
    p: "PopFront c = Inr c'" "wf_c c' h" "size_c c' = size_c c - 1"
      "window c' h = tl (window c h)"
    by blast
  from ne Suc.prems have "unat (size_c c') = n" by (simp add: p(3) unat_dec)
  from Suc.IH[OF p(2) this] have "drain_front n c' h = Inr (tl (window c h))"
    by (simp add: p(4))
  moreover from Suc.prems have "window c h \<noteq> []"
    using length_window[of c h] by auto
  ultimately show ?case
    using Front_wf[OF Suc.prems(1) ne] p(1) by simp
qed

lemma drain_back_ok:
  assumes "wf_c c h" and "tail_ok c" and "unat (size_c c) = n"
  shows "drain_back n c h = Inr (rev (window c h))"
  using assms
proof (induction n arbitrary: c)
  case 0
  then show ?case by (simp add: window_empty unat_eq_zero)
next
  case (Suc n)
  then have ne: "size_c c \<noteq> 0" by auto
  note p = PopBack_ok[OF Suc.prems(1) ne]
  from ne Suc.prems have "unat (size_c (PopBack c)) = n" by (simp add: p(2) unat_dec)
  from Suc.IH[OF p(1) p(4)[OF Suc.prems(2)] this]
  have "drain_back n (PopBack c) h = Inr (rev (butlast (window c h)))"
    by (simp add: p(3))
  moreover from Suc.prems have "window c h \<noteq> []"
    using length_window[of c h] by auto
  then have "last (window c h) # rev (butlast (window c h)) = rev (window c h)"
    by (metis append_butlast_last_id rev.simps(2) rev_rev_ident rev_singleton_conv rev_append)
  ultimately show ?case
    using Back_ok(1)[OF Suc.prems(1,2) ne] by simp
qed

lemma default_wf: "wf_c CircularArray_default h" "tail_ok CircularArray_default"
  "size_c CircularArray_default = 0"
  by (simp_all add: wf_c_def store_ok_def tail_ok_def CircularArray_default_def)

lemma sized_wf:
  assumes "CircularArray_sized d n h = Inr (c, h')"
  shows "wf_c c h'" and "tail_ok c" and "size_c c = 0"
  using assms
  by (auto simp: CircularArray_sized_def new_array_def wf_c_def store_ok_def tail_ok_def
      word_greater_zero_iff not_le split: if_splits)

text \<open>
  The round trips at both ends, from an empty well-formed container whose tail pointer is
  in step with \<open>head\<close> and \<open>size\<close>. Every constructor that leaves an empty container
  leaves such a one (\<open>default_wf\<close>, \<open>sized_wf\<close>, and below \<open>fill_wf\<close>, \<open>copy_wf\<close>,
  \<open>constructed_empty_tail_ok\<close>), and the operations keep the tail pointer in step
  (\<open>perform_tail_ok\<close>). A container emptied by pops after the fill or the copy constructor
  is not such a one.
\<close>

lemma round_trip_tail_in_step:
  assumes "wf_c c h" and "tail_ok c" and "size_c c = 0" and "length vs < 2 ^ 62"
  shows "(\<exists>c' h'. push_back_all d vs c h = Inr (c', h') \<and>
            drain_front (length vs) c' h' = Inr vs) \<and>
         (\<exists>c' h'. push_front_all d vs c h = Inr (c', h') \<and>
            drain_back (length vs) c' h' = Inr vs)"
proof -
  from assms have b: "unat (size_c c) + length vs < 2 ^ 62" by simp
  from assms have w: "window c h = []" by (simp add: window_empty)
  from push_back_all_ok[OF assms(1,2) b, of d] obtain c1 h1 where
    1: "push_back_all d vs c h = Inr (c1, h1)" "wf_c c1 h1" "window c1 h1 = window c h @ vs"
      "unat (size_c c1) = unat (size_c c) + length vs"
    by blast
  from 1 assms have "unat (size_c c1) = length vs" by simp
  from drain_front_ok[OF 1(2) this] 1(3) w have "drain_front (length vs) c1 h1 = Inr vs"
    by simp
  with 1(1) have front: "\<exists>c' h'. push_back_all d vs c h = Inr (c', h') \<and>
            drain_front (length vs) c' h' = Inr vs"
    by blast
  from push_front_all_ok[OF assms(1,2) b, of d] obtain c2 h2 where
    2: "push_front_all d vs c h = Inr (c2, h2)" "wf_c c2 h2" "tail_ok c2"
      "window c2 h2 = rev vs @ window c h"
      "unat (size_c c2) = unat (size_c c) + length vs"
    by blast
  from 2 assms have "unat (size_c c2) = length vs" by simp
  from drain_back_ok[OF 2(2,3) this] 2(4) w have "drain_back (length vs) c2 h2 = Inr vs"
    by simp
  with 2(1) have "\<exists>c' h'. push_front_all d vs c h = Inr (c', h') \<and>
            drain_back (length vs) c' h' = Inr vs"
    by blast
  with front show ?thesis ..
qed

section \<open>Insertion and removal in the middle\<close>

lemma list_update_cell_id: "cells h a = Some xs \<Longrightarrow> h[a := Some xs] = h"
  by (metis cells_def list_update_id option.distinct(1))

lemma InsertAt_nonfull:
  assumes wf: "wf_c c h" and nf: "size_c c < capacity c" and pos: "pos \<le> size_c c"
  shows "\<exists>c' h'.
          bind_res (for_down (size_c c) pos
                   (\<lambda>i hh. bind_res (subscript c (i - 1) hh)
                              (\<lambda>x. bind_res (umod (head c + i) (capacity c))
                                (\<lambda>k. array_set (data_array c) k x hh))) h)
           (\<lambda>h2. bind_res (umod (head c + pos) (capacity c))
             (\<lambda>k. bind_res (array_set (data_array c) k v h2)
               (\<lambda>h3. bind_res (umod (tail c + 1) (capacity c))
                 (\<lambda>t. Inr (c\<lparr>tail := t, size_c := size_c c + 1\<rparr>, h3))))) = Inr (c', h') \<and>
          wf_c c' h' \<and> size_c c' = size_c c + 1 \<and>
          window c' h' = take (unat pos) (window c h) @ v # drop (unat pos) (window c h) \<and>
          (tail_ok c \<longrightarrow> tail_ok c')"
proof -
  from nf have cap: "capacity c \<noteq> 0" by auto
  from wf cap obtain a xs where r: "data_array c = Some a" "cells h a = Some xs"
    "length xs = unat (capacity c)" "a < length h"
    "window c h = ring xs (unat (head c)) (unat (capacity c)) (unat (size_c c))"
    by (rule wf_c_rep)
  note b = wf_c_bounds[OF wf]
  define C where "C = unat (capacity c)"
  define S where "S = unat (size_c c)"
  define P where "P = unat pos"
  define phi where "phi k = (unat (head c) + k) mod C" for k
  from nf have S1: "unat (size_c c + 1) = Suc S" unfolding S_def by (rule unat_inc)
  from nf have SC: "S < C" by (simp add: word_less_nat_alt S_def C_def)
  from pos have PS: "P \<le> S" by (simp add: word_le_nat_alt S_def P_def)
  from cap have Cpos: "0 < C" by (simp add: unat_gt_0 C_def)
  have inj: "k = l" if "k < C" "l < C" "phi k = phi l" for k l
    using that unfolding phi_def by (rule mod_add_inj)
  have philt: "phi k < C" for k using Cpos by (simp add: phi_def)
  have slot: "unat ((head c + i) mod capacity c) = phi (unat i)" if "unat i \<le> C" for i
    unfolding phi_def C_def using b cap that by (intro unat_slot) (simp_all add: C_def)
  let ?body = "\<lambda>i hh. bind_res (subscript c (i - 1) hh)
                 (\<lambda>x. bind_res (umod (head c + i) (capacity c))
                   (\<lambda>k. array_set (data_array c) k x hh))"
  let ?I = "\<lambda>j t. \<exists>ys. t = h[a := Some ys] \<and> length ys = C \<and>
              (\<forall>k<unat j. ys ! phi k = xs ! phi k) \<and>
              (\<forall>k. unat j < k \<and> k \<le> S \<longrightarrow> ys ! phi k = xs ! phi (k - 1))"
  have "\<exists>s'. for_down (size_c c) pos ?body h = Inr s' \<and> ?I pos s'"
  proof (rule for_down_rule)
    show "pos \<le> size_c c" by (rule pos)
    show "?I (size_c c) h"
      using r by (intro exI[of _ xs]) (auto simp: list_update_cell_id C_def S_def)
  next
    fix j t assume j: "pos < j" "j \<le> size_c c" and I: "?I j t"
    from I obtain ys where ys: "t = h[a := Some ys]" "length ys = C"
      "\<forall>k<unat j. ys ! phi k = xs ! phi k"
      "\<forall>k. unat j < k \<and> k \<le> S \<longrightarrow> ys ! phi k = xs ! phi (k - 1)"
      by blast
    from j have j0: "j \<noteq> 0" by auto
    then have J1: "unat (j - 1) = unat j - 1" by (rule unat_dec)
    from j0 have Jpos: "0 < unat j" by (simp add: unat_gt_0)
    from j have JS: "unat j \<le> S" by (simp add: word_le_nat_alt S_def)
    with SC have JC: "unat j < C" by simp
    from r ys have ct: "cells t a = Some ys" by simp
    have rd: "subscript c (j - 1) t = Inr (xs ! phi (unat j - 1))"
      using r ct cap ys(2,3) slot[of "j - 1"] JC J1 Jpos philt[of "unat j - 1"]
      by (simp add: subscript_def subscript_ref_def umod_def array_get_def)
    let ?ys' = "ys[phi (unat j) := xs ! phi (unat j - 1)]"
    have wr: "?body j t = Inr (h[a := Some ?ys'])"
      using rd r ct cap ys(1,2) slot[of j] JC philt[of "unat j"]
      by (simp add: umod_def array_set_def)
    have lo: "\<forall>k<unat (j - 1). ?ys' ! phi k = xs ! phi k"
    proof (intro allI impI)
      fix k assume "k < unat (j - 1)"
      with J1 have k: "k < unat j - 1" by simp
      with JC have "phi k \<noteq> phi (unat j)" by (auto dest: inj[rotated 2])
      with k ys(3) show "?ys' ! phi k = xs ! phi k" by simp
    qed
    have hi: "\<forall>k. unat (j - 1) < k \<and> k \<le> S \<longrightarrow> ?ys' ! phi k = xs ! phi (k - 1)"
    proof (intro allI impI)
      fix k assume "unat (j - 1) < k \<and> k \<le> S"
      with J1 have k: "unat j - 1 < k" "k \<le> S" by simp_all
      show "?ys' ! phi k = xs ! phi (k - 1)"
      proof (cases "k = unat j")
        case True
        with ys(2) philt[of "unat j"] show ?thesis by simp
      next
        case False
        with k have gt: "unat j < k" by simp
        from k SC JC False have "phi k \<noteq> phi (unat j)" by (auto dest: inj[rotated 2])
        with gt k ys(4) show ?thesis by simp
      qed
    qed
    from wr lo hi ys(2) show "\<exists>t'. ?body j t = Inr t' \<and> ?I (j - 1) t'"
      by (intro exI[of _ "h[a := Some ?ys']"] conjI exI[of _ ?ys']) simp_all
  qed
  then obtain ys where loop: "for_down (size_c c) pos ?body h = Inr (h[a := Some ys])"
    and ys: "length ys = C" "\<forall>k<P. ys ! phi k = xs ! phi k"
      "\<forall>k. P < k \<and> k \<le> S \<longrightarrow> ys ! phi k = xs ! phi (k - 1)"
    unfolding P_def by blast
  let ?c' = "c\<lparr>tail := (tail c + 1) mod capacity c, size_c := size_c c + 1\<rparr>"
  let ?zs = "ys[phi P := v]"
  let ?h' = "h[a := Some ?zs]"
  from PS SC have PC: "P \<le> C" by simp
  have run: "bind_res (for_down (size_c c) pos ?body h)
           (\<lambda>h2. bind_res (umod (head c + pos) (capacity c))
             (\<lambda>k. bind_res (array_set (data_array c) k v h2)
               (\<lambda>h3. bind_res (umod (tail c + 1) (capacity c))
                 (\<lambda>t. Inr (c\<lparr>tail := t, size_c := size_c c + 1\<rparr>, h3))))) = Inr (?c', ?h')"
    using loop r cap ys(1) slot[of pos] PC philt[of P]
    by (simp add: umod_def array_set_def P_def)
  have wf': "wf_c ?c' ?h'"
    using r b cap S1 SC ys(1)
    by (intro wf_cI[where a = a and xs = ?zs]) (simp_all add: unat_mod_less C_def S_def)
  have win: "window ?c' ?h' = take P (window c h) @ v # drop P (window c h)"
  proof (rule nth_equalityI)
    show "length (window ?c' ?h') = length (take P (window c h) @ v # drop P (window c h))"
      using PS by (simp add: length_window[OF wf'] length_window[OF wf] S1 S_def)
  next
    fix k assume "k < length (window ?c' ?h')"
    then have k: "k < Suc S" by (simp add: length_window[OF wf'] S1)
    have w': "window ?c' ?h' ! k = ?zs ! phi k"
      using r k S1 by (simp add: window_ring phi_def C_def)
    have w: "window c h ! l = xs ! phi l" if "l < S" for l
      using r that by (simp add: phi_def C_def S_def)
    have lw: "length (window c h) = S" using wf by (simp add: length_window S_def)
    consider "k < P" | "k = P" | "P < k" by linarith
    then show "window ?c' ?h' ! k = (take P (window c h) @ v # drop P (window c h)) ! k"
    proof cases
      case 1
      with PS SC have "phi k \<noteq> phi P" by (auto dest: inj[rotated 2])
      with 1 PS ys(2) w[of k] lw show ?thesis by (simp add: w' nth_append)
    next
      case 2
      with PS lw ys(1) philt[of P] show ?thesis unfolding w' by (simp add: nth_append)
    next
      case 3
      with k PS SC have "phi k \<noteq> phi P" by (auto dest: inj[rotated 2])
      moreover from 3 k have "ys ! phi k = xs ! phi (k - 1)" using ys(3) by simp
      moreover from 3 obtain m where m: "k = Suc (P + m)"
        by (metis less_iff_Suc_add)
      with PS lw have "(take P (window c h) @ v # drop P (window c h)) ! k
          = window c h ! (k - 1)"
        by (simp add: nth_append)
      ultimately show ?thesis using 3 k w[of "k - 1"] by (simp add: w')
    qed
  qed
  have tl: "tail_ok c \<longrightarrow> tail_ok ?c'"
    using tail_ok_advance[OF wf nf] by blast
  from run wf' win tl show ?thesis
    by (intro exI[of _ ?c'] exI[of _ ?h']) (simp add: P_def)
qed

lemma PopBack_fields [simp]:
  "data_array (PopBack c) = data_array c" "head (PopBack c) = head c"
  "capacity (PopBack c) = capacity c" "size_c (PopBack c) = size_c c - 1"
  by (simp_all add: PopBack_def Let_def)

lemma RemoveAt_ok:
  assumes wf: "wf_c c h" and pos: "pos < size_c c"
  shows "\<exists>h'. RemoveAt pos c h = Inr (PopBack c, h') \<and> wf_c (PopBack c) h' \<and>
          window (PopBack c) h'
            = take (unat pos) (window c h) @ drop (Suc (unat pos)) (window c h) \<and>
          (tail_ok c \<longrightarrow> tail_ok (PopBack c))"
proof -
  from pos have ne: "size_c c \<noteq> 0" by auto
  from wf ne have cap: "capacity c \<noteq> 0" by (rule capacity_nonzero)
  from wf cap obtain a xs where r: "data_array c = Some a" "cells h a = Some xs"
    "length xs = unat (capacity c)" "a < length h"
    "window c h = ring xs (unat (head c)) (unat (capacity c)) (unat (size_c c))"
    by (rule wf_c_rep)
  note b = wf_c_bounds[OF wf]
  define C where "C = unat (capacity c)"
  define S where "S = unat (size_c c)"
  define P where "P = unat pos"
  define phi where "phi k = (unat (head c) + k) mod C" for k
  from b have SC: "S \<le> C" by (simp add: S_def C_def)
  from pos have PS: "P < S" by (simp add: word_less_nat_alt S_def P_def)
  from cap have Cpos: "0 < C" by (simp add: unat_gt_0 C_def)
  have inj: "k = l" if "k < C" "l < C" "phi k = phi l" for k l
    using that unfolding phi_def by (rule mod_add_inj)
  have philt: "phi k < C" for k using Cpos by (simp add: phi_def)
  have slot: "unat ((head c + i) mod capacity c) = phi (unat i)" if "unat i \<le> C" for i
    unfolding phi_def C_def using b cap that by (intro unat_slot) (simp_all add: C_def)
  let ?body = "\<lambda>i hh. bind_res (subscript c (i + 1) hh)
                 (\<lambda>x. bind_res (umod (head c + i) (capacity c))
                   (\<lambda>k. array_set (data_array c) k x hh))"
  let ?I = "\<lambda>j t. \<exists>ys. t = h[a := Some ys] \<and> length ys = C \<and>
              (\<forall>k<P. ys ! phi k = xs ! phi k) \<and>
              (\<forall>k. P \<le> k \<and> k < unat j \<and> Suc k < S \<longrightarrow> ys ! phi k = xs ! phi (Suc k)) \<and>
              (\<forall>k. unat j \<le> k \<and> k < S \<longrightarrow> ys ! phi k = xs ! phi k)"
  have "\<exists>s'. for_up pos (size_c c) ?body h = Inr s' \<and> ?I (size_c c) s'"
  proof (rule for_up_rule)
    show "pos \<le> size_c c" using pos by simp
    show "?I pos h"
      using r by (intro exI[of _ xs]) (auto simp: list_update_cell_id C_def P_def)
  next
    fix j t assume j: "pos \<le> j" "j < size_c c" and I: "?I j t"
    from I obtain ys where ys: "t = h[a := Some ys]" "length ys = C"
      "\<forall>k<P. ys ! phi k = xs ! phi k"
      "\<forall>k. P \<le> k \<and> k < unat j \<and> Suc k < S \<longrightarrow> ys ! phi k = xs ! phi (Suc k)"
      "\<forall>k. unat j \<le> k \<and> k < S \<longrightarrow> ys ! phi k = xs ! phi k"
      by blast
    from j have J1: "unat (j + 1) = Suc (unat j)" by (intro unat_inc)
    from j have JS: "unat j < S" by (simp add: word_less_nat_alt S_def)
    from j have PJ: "P \<le> unat j" by (simp add: word_le_nat_alt P_def)
    from JS SC have JC: "unat j < C" by simp
    from r ys have ct: "cells t a = Some ys" by simp
    have rd: "subscript c (j + 1) t = Inr (ys ! phi (Suc (unat j)))"
      using r ct cap ys(2) slot[of "j + 1"] JC J1 philt[of "Suc (unat j)"]
      by (simp add: subscript_def subscript_ref_def umod_def array_get_def)
    let ?ys' = "ys[phi (unat j) := ys ! phi (Suc (unat j))]"
    have wr: "?body j t = Inr (h[a := Some ?ys'])"
      using rd r ct cap ys(1,2) slot[of j] JC philt[of "unat j"]
      by (simp add: umod_def array_set_def)
    have lo: "\<forall>k<P. ?ys' ! phi k = xs ! phi k"
    proof (intro allI impI)
      fix k assume k: "k < P"
      with PJ JC have "phi k \<noteq> phi (unat j)" by (auto dest: inj[rotated 2])
      with k ys(3) show "?ys' ! phi k = xs ! phi k" by simp
    qed
    have mid: "\<forall>k. P \<le> k \<and> k < unat (j + 1) \<and> Suc k < S \<longrightarrow> ?ys' ! phi k = xs ! phi (Suc k)"
    proof (intro allI impI)
      fix k assume "P \<le> k \<and> k < unat (j + 1) \<and> Suc k < S"
      with J1 have k: "P \<le> k" "k < Suc (unat j)" "Suc k < S" by simp_all
      show "?ys' ! phi k = xs ! phi (Suc k)"
      proof (cases "k = unat j")
        case True
        with k ys(5) have "ys ! phi (Suc (unat j)) = xs ! phi (Suc (unat j))" by simp
        with True ys(2) philt[of "unat j"] show ?thesis by simp
      next
        case False
        with k have lt: "k < unat j" by simp
        with JC have "phi k \<noteq> phi (unat j)" by (auto dest: inj[rotated 2])
        with lt k ys(4) show ?thesis by simp
      qed
    qed
    have hi: "\<forall>k. unat (j + 1) \<le> k \<and> k < S \<longrightarrow> ?ys' ! phi k = xs ! phi k"
    proof (intro allI impI)
      fix k assume "unat (j + 1) \<le> k \<and> k < S"
      with J1 have k: "Suc (unat j) \<le> k" "k < S" by simp_all
      with SC JC have "phi k \<noteq> phi (unat j)" by (auto dest: inj[rotated 2])
      with k ys(5) show "?ys' ! phi k = xs ! phi k" by simp
    qed
    from wr lo mid hi ys(2) show "\<exists>t'. ?body j t = Inr t' \<and> ?I (j + 1) t'"
      by (intro exI[of _ "h[a := Some ?ys']"] conjI exI[of _ ?ys']) simp_all
  qed
  then obtain ys where loop: "for_up pos (size_c c) ?body h = Inr (h[a := Some ys])"
    and ys: "length ys = C" "\<forall>k<P. ys ! phi k = xs ! phi k"
      "\<forall>k. P \<le> k \<and> k < S \<and> Suc k < S \<longrightarrow> ys ! phi k = xs ! phi (Suc k)"
    unfolding S_def by blast
  let ?h' = "h[a := Some ys]"
  have run: "RemoveAt pos c h = Inr (PopBack c, ?h')"
    using loop by (simp add: RemoveAt_def)
  have wfh: "wf_c c ?h'"
    using r b cap ys(1) by (intro wf_cI[where a = a and xs = ys]) (simp_all add: C_def)
  note p = PopBack_ok[OF wfh ne]
  from ne have S1: "unat (size_c c - 1) = S - 1" unfolding S_def by (rule unat_dec)
  have lw: "length (window c h) = S" using wf by (simp add: length_window S_def)
  have w: "window c h ! l = xs ! phi l" if "l < S" for l
    using r that by (simp add: phi_def C_def S_def)
  have win: "window (PopBack c) ?h' = take P (window c h) @ drop (Suc P) (window c h)"
  proof (rule nth_equalityI)
    show "length (window (PopBack c) ?h')
        = length (take P (window c h) @ drop (Suc P) (window c h))"
      using PS lw by (simp add: length_window[OF p(1)] S1)
  next
    fix k assume "k < length (window (PopBack c) ?h')"
    then have k: "k < S - 1" by (simp add: length_window[OF p(1)] S1)
    have w': "window (PopBack c) ?h' ! k = ys ! phi k"
      using r k S1 by (simp add: window_ring phi_def C_def)
    show "window (PopBack c) ?h' ! k = (take P (window c h) @ drop (Suc P) (window c h)) ! k"
    proof (cases "k < P")
      case True
      with PS ys(2) w[of k] lw show ?thesis by (simp add: w' nth_append)
    next
      case False
      with k have "P \<le> k \<and> k < S \<and> Suc k < S" by arith
      with ys(3) have "ys ! phi k = xs ! phi (Suc k)" by blast
      moreover from False obtain m where m: "k = P + m"
        by (metis le_iff_add not_less)
      with k PS lw have "(take P (window c h) @ drop (Suc P) (window c h)) ! k
          = window c h ! Suc k"
        by (simp add: nth_append)
      ultimately show ?thesis using k w[of "Suc k"] by (simp add: w')
    qed
  qed
  have tl: "tail_ok c \<longrightarrow> tail_ok (PopBack c)"
    using PopBack_ok(4)[OF wf ne] by blast
  from run p(1) win tl show ?thesis
    by (intro exI[of _ ?h']) (simp add: P_def)
qed

lemma InsertAt_ok:
  assumes wf: "wf_c c h" and pos: "pos \<le> size_c c"
    and bound: "size_c c = capacity c \<longrightarrow> unat (capacity c) < 2 ^ 62"
  shows "\<exists>c' h'. InsertAt d v pos c h = Inr (c', h') \<and> wf_c c' h' \<and>
           size_c c' = size_c c + 1 \<and>
           window c' h' = take (unat pos) (window c h) @ v # drop (unat pos) (window c h) \<and>
           (tail_ok c \<longrightarrow> tail_ok c')"
proof -
  from grow_if_full_ok[OF wf bound, of d] obtain c1 h1 where
    g: "grow_if_full d c h = Inr (c1, h1)" "wf_c c1 h1" "size_c c1 < capacity c1"
      "size_c c1 = size_c c" "window c1 h1 = window c h" "tail_ok c \<longrightarrow> tail_ok c1"
    by blast
  from pos g(4) have "pos \<le> size_c c1" by simp
  from InsertAt_nonfull[OF g(2,3) this, of v] g show ?thesis
    by (auto simp: InsertAt_def)
qed

text \<open>
  Claim C6. In every well-formed container state and for every \<open>pos\<close> with
  \<open>0 \<le> pos \<le> size\<close>, \<open>InsertAt(v, pos)\<close> succeeds (growth, when the container is full, needs
  an allocation that \<open>new\<close> can provide), the \<open>RemoveAt(pos)\<close> that follows succeeds too,
  and the logical sequence read through \<open>operator[]\<close> and the size are then what they
  were before the two calls.
\<close>

theorem insert_then_remove_restores:
  assumes "wf_c c h" and "pos \<le> size_c c"
    and "size_c c = capacity c \<longrightarrow> unat (capacity c) < 2 ^ 62"
  shows "\<exists>c1 h1 c2 h2. InsertAt d v pos c h = Inr (c1, h1) \<and>
           RemoveAt pos c1 h1 = Inr (c2, h2) \<and>
           logical c2 h2 = logical c h \<and> Size c2 = Size c"
proof -
  from InsertAt_ok[OF assms, of d v] obtain c1 h1 where
    i: "InsertAt d v pos c h = Inr (c1, h1)" "wf_c c1 h1" "size_c c1 = size_c c + 1"
      "window c1 h1 = take (unat pos) (window c h) @ v # drop (unat pos) (window c h)"
    by blast
  from assms(1) have "unat (size_c c) < 2 ^ 63"
    using wf_c_bounds(1,2)[OF assms(1)] by simp
  then have "unat (size_c c + 1) = Suc (unat (size_c c))" by (rule unat_inc_small)
  with assms(2) i(3) have "pos < size_c c1"
    by (simp add: word_less_nat_alt word_le_nat_alt)
  from RemoveAt_ok[OF i(2) this] obtain h2 where
    r: "RemoveAt pos c1 h1 = Inr (PopBack c1, h2)" "wf_c (PopBack c1) h2"
      "window (PopBack c1) h2
         = take (unat pos) (window c1 h1) @ drop (Suc (unat pos)) (window c1 h1)"
    by blast
  from assms(2) have "unat pos \<le> length (window c h)"
    by (simp add: length_window[OF assms(1)] word_le_nat_alt)
  with r(3) i(4) have "window (PopBack c1) h2 = window c h"
    by (simp add: min_def)
  with r(2) assms(1) have "logical (PopBack c1) h2 = logical c h"
    by (simp add: logical_window)
  moreover have "Size (PopBack c1) = Size c"
    by (simp add: Size_def i(3))
  ultimately show ?thesis using i(1) r(1) by blast
qed

section \<open>Constructors and reachable states\<close>

lemma array_set_shape:
  assumes "array_set p i v t = Inr t'"
  shows "map_option length (cells t' b) = map_option length (cells t b)"
    and "length t' = length t"
    and "p \<noteq> Some b \<Longrightarrow> cells t' b = cells t b"
  using assms
  by (auto simp: array_set_def split: option.splits if_splits dest: cells_Some_less)

lemma store_ok_shape:
  assumes "store_ok c h" and "\<And>b. map_option length (cells h' b) = map_option length (cells h b)"
  shows "store_ok c h'"
proof (cases "data_array c")
  case None
  with assms(1) show ?thesis by (simp add: store_ok_def)
next
  case (Some a)
  with assms(1) obtain xs where "cells h a = Some xs" "length xs = unat (capacity c)"
    by (auto simp: store_ok_def split: option.splits)
  with assms(2)[of a] Some show ?thesis
    by (auto simp: store_ok_def split: option.splits)
qed

lemma fill_wf:
  assumes "CircularArray_fill d n v h = Inr (c, h')"
  shows "wf_c c h'"
proof -
  from assms have n: "unat n < 2 ^ 63"
    by (auto simp: CircularArray_fill_def new_array_def split: if_splits)
  let ?h1 = "h @ [Some (replicate (unat n) d)]"
  from assms n have c: "c = \<lparr>data_array = Some (length h), head = 0, tail = n - 1,
      size_c = n, capacity = n\<rparr>"
    and loop: "for_up 0 n (\<lambda>i. array_set (Some (length h)) i v) ?h1 = Inr h'"
    by (auto simp: CircularArray_fill_def new_array_def Let_def bind_res_eq_Inr)
  have "map_option length (cells h' (length h)) = Some (unat n)"
    using loop
  proof (rule for_up_preserves)
    show "map_option length (cells ?h1 (length h)) = Some (unat n)" by simp
  next
    fix j t t'
    assume "map_option length (cells t (length h)) = Some (unat n)"
      and "array_set (Some (length h)) j v t = Inr t'"
    then show "map_option length (cells t' (length h)) = Some (unat n)"
      by (simp add: array_set_shape(1))
  qed
  then have st: "store_ok c h'"
    by (auto simp: store_ok_def c split: option.splits)
  have "n \<noteq> 0 \<Longrightarrow> n - 1 < n"
    by (simp add: word_less_nat_alt unat_dec unat_gt_0)
  with st n show ?thesis
    by (simp add: wf_c_def c word_greater_zero_iff)
qed

lemma copy_ok:
  assumes wf: "wf_c c h"
  shows "CircularArray_copy d c h =
           Inr (\<lparr>data_array = Some (length h), head = 0, tail = size_c c - 1,
                 size_c = size_c c, capacity = size_c c\<rparr>, h @ [Some (window c h)])"
proof -
  define w where "w = window c h"
  define S where "S = unat (size_c c)"
  note b = wf_c_bounds[OF wf]
  from b have S63: "S < 2 ^ 63" by (simp add: S_def)
  have lw: "length w = S" using wf by (simp add: w_def S_def length_window)
  have alloc: "new_array d (size_c c) h = Inr (length h, h @ [Some (replicate S d)])"
    using S63 by (simp add: new_array_def S_def)
  let ?body = "\<lambda>i hh. bind_res (subscript c i hh)
                 (\<lambda>x. array_set (Some (length h)) i x hh)"
  let ?I = "\<lambda>j t. t = h @ [Some (take (unat j) w @ replicate (S - unat j) d)]"
  have "\<exists>s'. for_up 0 (size_c c) ?body (h @ [Some (replicate S d)]) = Inr s' \<and>
          ?I (size_c c) s'"
  proof (rule for_up_rule)
    show "0 \<le> size_c c" by simp
    show "?I 0 (h @ [Some (replicate S d)])" by simp
  next
    fix j t assume j: "0 \<le> j" "j < size_c c" and I: "?I j t"
    from j have ne: "size_c c \<noteq> 0" by auto
    with wf have cap: "capacity c \<noteq> 0" by (rule capacity_nonzero)
    from wf cap obtain a xs where st: "data_array c = Some a" "cells h a = Some xs"
      "length xs = unat (capacity c)" by (rule wf_c_store)
    from st have a: "a < length h" by (auto dest: cells_Some_less)
    from j have jl: "unat j < S" by (simp add: word_less_nat_alt S_def)
    from j have j1: "unat (j + 1) = Suc (unat j)" by (intro unat_inc)
    have wft: "wf_c c t"
      using wf st a I unfolding wf_c_def
      by (auto simp: store_ok_def)
    have "window c t = w"
      using st a I by (simp add: w_def window_def)
    with subscript_wf(1)[OF wft j(2)] have rd: "subscript c j t = Inr (w ! unat j)"
      by simp
    from jl lw have "(take (unat j) w @ replicate (S - unat j) d)[unat j := w ! unat j]
        = take (Suc (unat j)) w @ replicate (S - Suc (unat j)) d"
      by (intro take_replicate_step) simp_all
    with jl lw I rd show "\<exists>t'. ?body j t = Inr t' \<and> ?I (j + 1) t'"
      by (simp add: array_set_def j1 list_update_append)
  qed
  then have loop: "for_up 0 (size_c c) ?body (h @ [Some (replicate S d)])
      = Inr (h @ [Some w])"
    using lw by (auto simp: S_def)
  show ?thesis
    unfolding CircularArray_copy_def Let_def
    by (simp add: alloc loop) (simp add: w_def)
qed

lemma copy_wf:
  assumes wf: "wf_c c h"
  shows "wf_c \<lparr>data_array = Some (length h), head = 0, tail = size_c c - 1,
                 size_c = size_c c, capacity = size_c c\<rparr> (h @ [Some (window c h)])"
    and "window \<lparr>data_array = Some (length h), head = 0, tail = size_c c - 1,
                 size_c = size_c c, capacity = size_c c\<rparr> (h @ [Some (window c h)])
         = window c h"
    and "wf_c c (h @ [Some (window c h)])"
    and "window c (h @ [Some (window c h)]) = window c h"
proof -
  note b = wf_c_bounds[OF wf]
  have lw: "length (window c h) = unat (size_c c)" using wf by (rule length_window)
  have "size_c c \<noteq> 0 \<Longrightarrow> size_c c - 1 < size_c c"
    by (simp add: word_less_nat_alt unat_dec unat_gt_0)
  with b lw show "wf_c \<lparr>data_array = Some (length h), head = 0, tail = size_c c - 1,
                 size_c = size_c c, capacity = size_c c\<rparr> (h @ [Some (window c h)])"
    by (simp add: wf_c_def store_ok_def word_greater_zero_iff)
  have "map (\<lambda>i. window c h ! (i mod unat (size_c c))) [0..<unat (size_c c)] = window c h"
    using lw by (intro nth_equalityI) simp_all
  then show "window \<lparr>data_array = Some (length h), head = 0, tail = size_c c - 1,
                 size_c = size_c c, capacity = size_c c\<rparr> (h @ [Some (window c h)])
         = window c h"
    by (simp add: window_def)
  have same: "cells (h @ [Some (window c h)]) a = cells h a" if "data_array c = Some a" for a
  proof -
    from wf that obtain xs where "cells h a = Some xs" "a < length h"
      by (rule store_ok_Some)
    then show ?thesis by simp
  qed
  from wf same show "wf_c c (h @ [Some (window c h)])"
    by (auto simp: wf_c_def store_ok_def split: option.splits)
  from same show "window c (h @ [Some (window c h)]) = window c h"
    by (auto simp: window_def split: option.splits)
qed

lemma storeless_wf:
  "wf_c (c\<lparr>data_array := None, size_c := 0, capacity := 0\<rparr>) h"
  "tail_ok (c\<lparr>data_array := None, size_c := 0, capacity := 0\<rparr>)"
  by (simp_all add: wf_c_def store_ok_def tail_ok_def)

lemma constructed_empty_tail_ok:
  "CircularArray_fill d n v h = Inr (c, h') \<Longrightarrow> size_c c = 0 \<Longrightarrow> tail_ok c"
  "CircularArray_copy d c0 h = Inr (c, h') \<Longrightarrow> size_c c = 0 \<Longrightarrow> tail_ok c"
  by (auto simp: CircularArray_fill_def CircularArray_copy_def
      bind_res_eq_Inr Let_def tail_ok_def)

lemma perform_wf:
  assumes wf: "wf_c c h" and pre: "precondition x c" and run: "perform d x c h = Inr (c', h')"
  shows "wf_c c' h'"
proof (cases x)
  case (OpPushFront v)
  with run obtain r where "grow_if_full d c h = Inr r"
    by (auto simp: PushFront_def bind_res_eq_Inr)
  from PushFront_ok[OF wf grow_if_full_Inr[OF wf this], of d v] run OpPushFront
  show ?thesis by auto
next
  case (OpPushBack v)
  with run obtain r where "grow_if_full d c h = Inr r"
    by (auto simp: PushBack_def bind_res_eq_Inr)
  from PushBack_ok[OF wf grow_if_full_Inr[OF wf this], of d v] run OpPushBack
  show ?thesis by auto
next
  case OpPopFront
  with pre have "size_c c \<noteq> 0" by auto
  from PopFront_ok[OF wf this] run OpPopFront show ?thesis by auto
next
  case OpPopBack
  with pre have "size_c c \<noteq> 0" by auto
  from PopBack_ok(1)[OF wf this] run OpPopBack show ?thesis by auto
next
  case (OpInsertAt v pos)
  with run obtain r where "grow_if_full d c h = Inr r"
    by (auto simp: InsertAt_def bind_res_eq_Inr)
  then have bound: "size_c c = capacity c \<longrightarrow> unat (capacity c) < 2 ^ 62"
    by (rule grow_if_full_Inr[OF wf])
  from pre OpInsertAt have "pos \<le> size_c c" by simp
  from InsertAt_ok[OF wf this bound, of d v] run OpInsertAt show ?thesis by auto
next
  case (OpRemoveAt pos)
  with pre have "pos < size_c c" by simp
  from RemoveAt_ok[OF wf this] run OpRemoveAt show ?thesis by auto
next
  case (OpAssign i v)
  with pre have "i < size_c c" by simp
  from Assign_ok[OF wf this, of d v] run OpAssign show ?thesis by auto
qed

text \<open>
  The operations keep the tail pointer in step with \<open>head\<close> and \<open>size\<close>, and the
  default and the sized constructor set it so (\<open>default_wf\<close>, \<open>sized_wf\<close>).
\<close>

lemma perform_tail_ok:
  assumes wf: "wf_c c h" and tk: "tail_ok c" and pre: "precondition x c"
    and run: "perform d x c h = Inr (c', h')"
  shows "tail_ok c'"
proof (cases x)
  case (OpPushFront v)
  with run obtain r where "grow_if_full d c h = Inr r"
    by (auto simp: PushFront_def bind_res_eq_Inr)
  from PushFront_ok[OF wf grow_if_full_Inr[OF wf this], of d v] run OpPushFront tk
  show ?thesis by auto
next
  case (OpPushBack v)
  with run obtain r where "grow_if_full d c h = Inr r"
    by (auto simp: PushBack_def bind_res_eq_Inr)
  from PushBack_ok[OF wf grow_if_full_Inr[OF wf this], of d v] run OpPushBack tk
  show ?thesis by auto
next
  case OpPopFront
  with pre have "size_c c \<noteq> 0" by auto
  from PopFront_ok[OF wf this] run OpPopFront tk show ?thesis by auto
next
  case OpPopBack
  with pre have "size_c c \<noteq> 0" by auto
  from PopBack_ok(4)[OF wf this tk] run OpPopBack show ?thesis by auto
next
  case (OpInsertAt v pos)
  with run obtain r where "grow_if_full d c h = Inr r"
    by (auto simp: InsertAt_def bind_res_eq_Inr)
  then have bound: "size_c c = capacity c \<longrightarrow> unat (capacity c) < 2 ^ 62"
    by (rule grow_if_full_Inr[OF wf])
  from pre OpInsertAt have "pos \<le> size_c c" by simp
  from InsertAt_ok[OF wf this bound, of d v] run OpInsertAt tk show ?thesis by auto
next
  case (OpRemoveAt pos)
  with pre have "pos < size_c c" by simp
  from RemoveAt_ok[OF wf this] run OpRemoveAt tk show ?thesis by auto
next
  case (OpAssign i v)
  with pre have "i < size_c c" by simp
  from Assign_ok[OF wf this, of d v] run OpAssign tk show ?thesis by auto
qed

lemma reachable_wf: "reachable d c h \<Longrightarrow> wf_c c h"
proof (induction rule: reachable.induct)
  case (reach_default h)
  show ?case by (rule default_wf)
next
  case (reach_sized n h c h')
  then show ?case by (rule sized_wf)
next
  case (reach_fill n v h c h')
  then show ?case by (rule fill_wf)
next
  case (reach_copy c h c' h')
  with copy_ok[OF reach_copy.IH, of d] copy_wf(1)[OF reach_copy.IH] show ?case by simp
next
  case (reach_storeless c h)
  show ?case by (rule storeless_wf)
next
  case (reach_perform c h x c' h')
  then show ?case by (auto intro: perform_wf)
qed

text \<open>
  Claim C7. In every state that a constructor produces, and in every state that an
  operation called under its precondition makes of such a state, \<open>size \<le> capacity\<close>.
\<close>

theorem size_le_capacity:
  assumes "reachable d c h"
  shows "size_c c \<le> capacity c"
  using reachable_wf[OF assms] by (simp add: wf_c_def)

section \<open>Whose store an operation touches\<close>

lemma new_array_frame:
  assumes "new_array d n h = Inr (p, h1)" and "cells h b = Some ys"
  shows "cells h1 b = Some ys" and "p \<noteq> b" and "p = length h"
  using assms by (auto simp: new_array_def split: if_splits dest: cells_Some_less)

lemma delete_array_frame:
  assumes "delete_array a h = Inr h'" and "a \<noteq> b"
  shows "cells h' b = cells h b"
  using assms by (auto simp: delete_array_def split: option.splits)

lemma ExtandArray_frame:
  assumes run: "ExtandArray d c h = Inr (c', h')"
    and other: "data_array c \<noteq> Some b" and live: "cells h b = Some ys"
  shows "cells h' b = Some ys" and "data_array c' \<noteq> Some b"
proof -
  define c1 where "c1 = (if capacity c = 0 then c\<lparr>capacity := 1\<rparr> else c)"
  have d1: "data_array c1 = data_array c" by (simp add: c1_def)
  from run obtain p h1 h2 where
    alloc: "new_array d (capacity c1 * 2) h = Inr (p, h1)"
    and loop: "for_up 0 (size_c c1)
                 (\<lambda>i hh. bind_res (umod (head c1 + i) (capacity c1))
                    (\<lambda>k. bind_res (array_get (data_array c1) k hh)
                      (\<lambda>x. array_set (Some p) i x hh))) h1 = Inr h2"
    and del: "(case data_array c1 of None \<Rightarrow> Inr h2 | Some a \<Rightarrow> delete_array a h2) = Inr h'"
    and c': "c' = c1\<lparr>data_array := Some p, head := 0, tail := size_c c1,
                      capacity := capacity c1 * 2\<rparr>"
    unfolding ExtandArray_def Let_def c1_def[symmetric]
    by (auto simp: bind_res_eq_Inr)
  note n = new_array_frame[OF alloc live]
  have "cells h2 b = Some ys"
    using loop n(1)
  proof (rule for_up_preserves)
    fix j t t'
    assume t: "cells t b = Some ys"
      and "bind_res (umod (head c1 + j) (capacity c1))
             (\<lambda>k. bind_res (array_get (data_array c1) k t)
               (\<lambda>x. array_set (Some p) j x t)) = Inr t'"
    then obtain x where "array_set (Some p) j x t = Inr t'"
      by (auto simp: bind_res_eq_Inr)
    from array_set_shape(3)[OF this, of b] n(2) t show "cells t' b = Some ys" by simp
  qed
  with del other d1 show "cells h' b = Some ys"
    by (auto split: option.splits dest: delete_array_frame[where b = b])
  from c' n(2) show "data_array c' \<noteq> Some b" by simp
qed

lemma grow_if_full_frame:
  assumes "grow_if_full d c h = Inr (c', h')"
    and "data_array c \<noteq> Some b" and "cells h b = Some ys"
  shows "cells h' b = Some ys" and "data_array c' \<noteq> Some b"
  using assms ExtandArray_frame[of d c h c' h' b ys]
  by (auto simp: grow_if_full_def split: if_splits)

lemma subscript_write_frame:
  assumes "bind_res (subscript c1 i t)
             (\<lambda>x. bind_res (umod k0 cap) (\<lambda>k. array_set (data_array c1) k x t)) = Inr t'"
    and "data_array c1 \<noteq> Some b"
  shows "cells t' b = cells t b"
proof -
  from assms(1) obtain x k where "array_set (data_array c1) k x t = Inr t'"
    by (auto simp: bind_res_eq_Inr)
  from array_set_shape(3)[OF this assms(2)] show ?thesis .
qed

lemma perform_frame:
  assumes run: "perform d x c h = Inr (c', h')"
    and other: "data_array c \<noteq> Some b" and live: "cells h b = Some ys"
  shows "cells h' b = Some ys" and "data_array c' \<noteq> Some b"
proof -
  have "cells h' b = Some ys \<and> data_array c' \<noteq> Some b"
  proof (cases x)
    case (OpPushFront v)
    with run obtain c1 h1 where g: "grow_if_full d c h = Inr (c1, h1)"
      and w: "array_set (data_array c1)
                (if head c1 = 0 then capacity c1 - 1 else head c1 - 1) v h1 = Inr h'"
      and c': "data_array c' = data_array c1"
      by (auto simp: PushFront_def bind_res_eq_Inr Let_def split: if_splits)
    note f = grow_if_full_frame[OF g other live]
    from array_set_shape(3)[OF w f(2)] f c' show ?thesis by simp
  next
    case (OpPushBack v)
    with run obtain c1 h1 where g: "grow_if_full d c h = Inr (c1, h1)"
      and w: "array_set (data_array c1) (tail c1) v h1 = Inr h'"
      and c': "data_array c' = data_array c1"
      by (auto simp: PushBack_def bind_res_eq_Inr)
    note f = grow_if_full_frame[OF g other live]
    from array_set_shape(3)[OF w f(2)] f c' show ?thesis by simp
  next
    case OpPopFront
    with run other live show ?thesis
      by (auto simp: PopFront_def bind_res_eq_Inr)
  next
    case OpPopBack
    with run other live show ?thesis by auto
  next
    case (OpInsertAt v pos)
    with run obtain c1 h1 h2 k where g: "grow_if_full d c h = Inr (c1, h1)"
      and loop: "for_down (size_c c1) pos
                   (\<lambda>i hh. bind_res (subscript c1 (i - 1) hh)
                              (\<lambda>x. bind_res (umod (head c1 + i) (capacity c1))
                                (\<lambda>k. array_set (data_array c1) k x hh))) h1 = Inr h2"
      and w: "array_set (data_array c1) k v h2 = Inr h'"
      and c': "data_array c' = data_array c1"
      by (auto simp: InsertAt_def bind_res_eq_Inr)
    note f = grow_if_full_frame[OF g other live]
    have "cells h2 b = Some ys"
      using loop f(1)
    proof (rule for_down_preserves)
      fix j t t'
      assume "cells t b = Some ys"
        and "bind_res (subscript c1 (j - 1) t)
               (\<lambda>x. bind_res (umod (head c1 + j) (capacity c1))
                 (\<lambda>k. array_set (data_array c1) k x t)) = Inr t'"
      with subscript_write_frame[OF this(2) f(2)] show "cells t' b = Some ys" by simp
    qed
    with array_set_shape(3)[OF w f(2)] f c' show ?thesis by simp
  next
    case (OpRemoveAt pos)
    with run have loop: "for_up pos (size_c c)
                 (\<lambda>i hh. bind_res (subscript c (i + 1) hh)
                            (\<lambda>x. bind_res (umod (head c + i) (capacity c))
                              (\<lambda>k. array_set (data_array c) k x hh))) h = Inr h'"
      and c': "c' = PopBack c"
      by (auto simp: RemoveAt_def bind_res_eq_Inr)
    have "cells h' b = Some ys"
      using loop live
    proof (rule for_up_preserves)
      fix j t t'
      assume "cells t b = Some ys"
        and "bind_res (subscript c (j + 1) t)
               (\<lambda>x. bind_res (umod (head c + j) (capacity c))
                 (\<lambda>k. array_set (data_array c) k x t)) = Inr t'"
      with subscript_write_frame[OF this(2) other] show "cells t' b = Some ys" by simp
    qed
    with c' other show ?thesis by simp
  next
    case (OpAssign i v)
    with run obtain k where w: "array_set (data_array c) k v h = Inr h'" and c': "c' = c"
      by (auto simp: bind_res_eq_Inr)
    from array_set_shape(3)[OF w other] live c' other show ?thesis by simp
  qed
  then show "cells h' b = Some ys" and "data_array c' \<noteq> Some b" by simp_all
qed

lemma perform_all_frame:
  assumes "perform_all d xs c h = Inr (c', h')"
    and "data_array c \<noteq> Some b" and "cells h b = Some ys"
  shows "cells h' b = Some ys"
  using assms
proof (induction xs arbitrary: c h)
  case Nil
  then show ?case by simp
next
  case (Cons x xs)
  from Cons.prems(1) obtain c1 h1 where p: "perform d x c h = Inr (c1, h1)"
    and rest: "perform_all d xs c1 h1 = Inr (c', h')"
    by (auto simp: bind_res_eq_Inr)
  note f = perform_frame[OF p Cons.prems(2,3)]
  from Cons.IH[OF rest f(2) f(1)] show ?case .
qed

lemma destroy_frame:
  assumes "CircularArray_destroy c h = Inr h'" and "data_array c \<noteq> Some b"
  shows "cells h' b = cells h b"
  using assms
  by (auto simp: CircularArray_destroy_def split: option.splits dest: delete_array_frame)

lemma logical_cong:
  assumes "\<And>a. data_array c = Some a \<Longrightarrow> cells h' a = cells h a"
  shows "logical c h' = logical c h"
  using assms
  by (cases "data_array c") (simp_all add: logical_def subscript_def array_get_def)

section \<open>Copies\<close>

text \<open>
  Claim C8. Copy construction of a well-formed container always succeeds. The copy
  holds the source's logical sequence in a store of its own, of capacity equal to the
  source's size, with head 0; the source is unchanged. Whatever sequence of operations
  (or the destructor) is then applied to the copy, the logical sequence of the source
  stays what it was, and whatever is applied to the source, the logical sequence of the
  copy stays what it was.
\<close>

theorem copy_is_independent:
  assumes wf: "wf_c c h"
  shows "\<exists>c2 h1. CircularArray_copy d c h = Inr (c2, h1) \<and>
           logical c2 h1 = logical c h \<and> logical c h1 = logical c h \<and>
           Capacity c2 = Size c \<and> Size c2 = Size c \<and> head c2 = 0 \<and>
           data_array c2 \<noteq> data_array c \<and>
           (\<forall>xs c2' h2. perform_all d xs c2 h1 = Inr (c2', h2) \<longrightarrow> logical c h2 = logical c h) \<and>
           (\<forall>xs c' h2. perform_all d xs c h1 = Inr (c', h2) \<longrightarrow> logical c2 h2 = logical c h) \<and>
           (\<forall>h2. CircularArray_destroy c2 h1 = Inr h2 \<longrightarrow> logical c h2 = logical c h) \<and>
           (\<forall>h2. CircularArray_destroy c h1 = Inr h2 \<longrightarrow> logical c2 h2 = logical c h)"
proof -
  let ?c2 = "\<lparr>data_array = Some (length h), head = 0, tail = size_c c - 1,
              size_c = size_c c, capacity = size_c c\<rparr>"
  let ?h1 = "h @ [Some (window c h)]"
  note cw = copy_wf[OF wf]
  have run: "CircularArray_copy d c h = Inr (?c2, ?h1)" using wf by (rule copy_ok)
  have l2: "logical ?c2 ?h1 = logical c h"
    by (simp add: logical_window[OF cw(1)] logical_window[OF wf] cw(2))
  have l1: "logical c ?h1 = logical c h"
    by (simp add: logical_window[OF cw(3)] logical_window[OF wf] cw(4))
  have own: "a < length h \<and> cells ?h1 a = cells h a \<and> (\<exists>xs. cells h a = Some xs)"
    if "data_array c = Some a" for a
  proof -
    from wf that obtain xs where "cells h a = Some xs" "a < length h"
      by (rule store_ok_Some)
    then show ?thesis by simp
  qed
  then have nl: "data_array c \<noteq> Some (length h)" by (metis less_irrefl)
  then have ne: "data_array ?c2 \<noteq> data_array c" by auto
  have m2: "logical c h2 = logical c h" if "perform_all d xs ?c2 ?h1 = Inr (c2', h2)"
    for xs c2' h2
  proof -
    have "logical c h2 = logical c ?h1"
    proof (rule logical_cong)
      fix a assume a: "data_array c = Some a"
      with own obtain ys where ys: "cells ?h1 a = Some ys" and "a < length h" by auto
      then have "data_array ?c2 \<noteq> Some a" by simp
      from perform_all_frame[OF that this ys] ys show "cells h2 a = cells ?h1 a" by simp
    qed
    with l1 show ?thesis by simp
  qed
  have m1: "logical ?c2 h2 = logical c h" if "perform_all d xs c ?h1 = Inr (c', h2)"
    for xs c' h2
  proof -
    note nl
    moreover have "cells ?h1 (length h) = Some (window c h)" by simp
    ultimately have "cells h2 (length h) = Some (window c h)"
      by (rule perform_all_frame[OF that])
    then have "logical ?c2 h2 = logical ?c2 ?h1"
      by (intro logical_cong) simp
    with l2 show ?thesis by simp
  qed
  have d2: "logical c h2 = logical c h" if "CircularArray_destroy ?c2 ?h1 = Inr h2" for h2
  proof -
    have "logical c h2 = logical c ?h1"
    proof (rule logical_cong)
      fix a assume a: "data_array c = Some a"
      with own have "data_array ?c2 \<noteq> Some a" by auto
      from destroy_frame[OF that this] show "cells h2 a = cells ?h1 a" .
    qed
    with l1 show ?thesis by simp
  qed
  have d1: "logical ?c2 h2 = logical c h" if "CircularArray_destroy c ?h1 = Inr h2" for h2
  proof -
    from destroy_frame[OF that nl] have "logical ?c2 h2 = logical ?c2 ?h1"
      by (intro logical_cong) simp
    with l2 show ?thesis by simp
  qed
  from run l2 l1 ne m2 m1 d2 d1 show ?thesis
    by (intro exI[of _ ?c2] exI[of _ ?h1]) (simp add: Capacity_def Size_def)
qed

section \<open>The growth policy\<close>

text \<open>
  Claim C1, as amended. When an insertion finds a well-formed container full, growth
  allocates a new store of capacity \<open>2 * max(1, capacity)\<close>, which is 2 when the
  capacity was 0, copies the logical window to the physical indices \<open>0 .. size - 1\<close> of the
  new store in logical order, frees the old store, sets head to 0 and the tail pointer to
  the size before the insertion. The allocation succeeds for any capacity below \<open>2 ^ 62\<close>.
\<close>

theorem growth_policy:
  assumes wf: "wf_c c h" and full: "size_c c = capacity c"
    and bound: "unat (capacity c) < 2 ^ 62"
  shows "\<exists>c' h'. grow_if_full d c h = Inr (c', h') \<and>
           Capacity c' = 2 * max 1 (Capacity c) \<and> head c' = 0 \<and> tail c' = Size c \<and>
           Size c' = Size c \<and> data_array c' = Some (length h) \<and> store_ok c' h' \<and>
           (\<forall>i. i < size_c c \<longrightarrow> array_get (data_array c') i h' = subscript c i h) \<and>
           (\<forall>a. data_array c = Some a \<longrightarrow> cells h' a = None)"
proof -
  let ?c' = "fst (grown d c h)" and ?h' = "snd (grown d c h)"
  from full bound have run: "grow_if_full d c h = Inr (?c', ?h')"
    by (simp add: grow_if_full_cases[OF wf])
  note g = grown_wf[OF wf bound, of d]
  from g(1) have st: "store_ok ?c' ?h'" by (simp add: wf_c_def)
  have lw: "length (window c h) = unat (size_c c)" using wf by (rule length_window)
  have rd: "array_get (data_array ?c') i ?h' = subscript c i h" if "i < size_c c" for i
  proof -
    from that have "unat i < unat (size_c c)" by (simp add: word_less_nat_alt)
    with lw show ?thesis
      by (simp add: subscript_wf(1)[OF wf that] array_get_def grown_cells[OF wf] nth_append)
  qed
  have old: "cells ?h' a = None" if "data_array c = Some a" for a
  proof -
    from wf that obtain xs where "a < length h" by (rule store_ok_Some)
    with that show ?thesis by (simp add: grown_cells[OF wf])
  qed
  from run st rd old show ?thesis
    by (intro exI[of _ ?c'] exI[of _ ?h']) (simp add: Capacity_def Size_def)
qed

lemma upt_numeral_eval: "[i..<numeral k] = (if i < numeral k then i # [Suc i..<numeral k] else [])"
  by (rule upt_rec)

lemmas op_defs = CircularArray_default_def CircularArray_sized_def CircularArray_fill_def
  subscript_ref_def subscript_def CircularArray_copy_def ExtandArray_def grow_if_full_def
  PushFront_def PushBack_def PopFront_def PopBack_def Front_ref_def Front_def Back_ref_def
  Back_def InsertAt_def RemoveAt_def logical_def upt_numeral_eval

lemma full_example_wf:
  "wf_c \<lparr>data_array = Some 0, head = 1, tail = 1, size_c = 2, capacity = 2\<rparr>
     [Some [20 :: nat, 10]]"
  by (simp add: wf_c_def store_ok_def cells_def)

theorem growth_policy_witness:
  "wf_c \<lparr>data_array = Some 0, head = 1, tail = 1, size_c = 2, capacity = 2\<rparr>
     [Some [20 :: nat, 10]] \<and>
   size_c \<lparr>data_array = Some 0, head = 1, tail = 1, size_c = 2, capacity = 2\<rparr>
     = capacity \<lparr>data_array = Some 0, head = 1, tail = 1, size_c = 2, capacity = 2\<rparr> \<and>
   unat (capacity \<lparr>data_array = Some 0, head = 1, tail = 1, size_c = 2, capacity = 2\<rparr>)
     < 2 ^ 62 \<and>
   (\<exists>c' h'. grow_if_full (0 :: nat)
        \<lparr>data_array = Some 0, head = 1, tail = 1, size_c = 2, capacity = 2\<rparr>
        [Some [20, 10]] = Inr (c', h') \<and>
      Capacity c' = 2 * max 1 2 \<and> head c' = 0 \<and> tail c' = 2 \<and> Size c' = 2 \<and>
      data_array c' = Some 1 \<and> store_ok c' h' \<and>
      (\<forall>i. i < 2 \<longrightarrow> array_get (data_array c') i h'
          = subscript \<lparr>data_array = Some 0, head = 1, tail = 1, size_c = 2, capacity = 2\<rparr>
              i [Some [20, 10]]) \<and>
      (\<forall>a. Some (0 :: nat) = Some a \<longrightarrow> cells h' a = None))"
  using growth_policy[OF full_example_wf, of 0] full_example_wf
  by (simp add: Capacity_def Size_def)

theorem growth_from_capacity_zero:
  "grow_if_full (0 :: nat) CircularArray_default [] =
     Inr (\<lparr>data_array = Some 0, head = 0, tail = 0, size_c = 0, capacity = 2\<rparr>, [Some [0, 0]]) \<and>
   (2 :: size_t) \<noteq> max 1 (2 * capacity CircularArray_default)"
  by (simp add: op_defs eval_defs)

section \<open>Worked examples\<close>

lemma wrapped_example_wf:
  "wf_c \<lparr>data_array = Some 0, head = 2, tail = 1, size_c = 2, capacity = 3\<rparr>
     [Some [20 :: nat, 0, 10]]"
  by (simp add: wf_c_def store_ok_def cells_def)

theorem insert_then_remove_restores_witness:
  "wf_c \<lparr>data_array = Some 0, head = 2, tail = 1, size_c = 2, capacity = 3\<rparr>
     [Some [20 :: nat, 0, 10]] \<and>
   (1 :: size_t) \<le> size_c \<lparr>data_array = Some 0, head = 2, tail = 1, size_c = 2, capacity = 3\<rparr> \<and>
   size_c \<lparr>data_array = Some 0, head = 2, tail = 1, size_c = 2, capacity = 3\<rparr>
     \<noteq> capacity \<lparr>data_array = Some 0, head = 2, tail = 1, size_c = 2, capacity = 3\<rparr> \<and>
   (\<exists>c1 h1 c2 h2.
      InsertAt (0 :: nat) 15 1
        \<lparr>data_array = Some 0, head = 2, tail = 1, size_c = 2, capacity = 3\<rparr>
        [Some [20, 0, 10]] = Inr (c1, h1) \<and>
      RemoveAt 1 c1 h1 = Inr (c2, h2) \<and>
      logical c2 h2
        = logical \<lparr>data_array = Some 0, head = 2, tail = 1, size_c = 2, capacity = 3\<rparr>
            [Some [20, 0, 10]] \<and>
      Size c2 = Size \<lparr>data_array = Some 0, head = 2, tail = 1, size_c = 2, capacity = 3\<rparr>)"
proof -
  have 2: "(1 :: size_t) \<le> size_c \<lparr>data_array = Some 0, head = 2, tail = 1, size_c = 2, capacity = 3\<rparr>"
    by simp
  have 3: "size_c \<lparr>data_array = Some 0, head = 2, tail = 1, size_c = 2, capacity = 3\<rparr>
     \<noteq> capacity \<lparr>data_array = Some 0, head = 2, tail = 1, size_c = 2, capacity = 3\<rparr>"
    by simp
  then have 4: "size_c \<lparr>data_array = Some 0, head = 2, tail = 1, size_c = 2, capacity = 3\<rparr>
     = capacity \<lparr>data_array = Some 0, head = 2, tail = 1, size_c = 2, capacity = 3\<rparr> \<longrightarrow>
     unat (capacity \<lparr>data_array = Some 0, head = 2, tail = 1, size_c = 2, capacity = 3\<rparr>)
       < 2 ^ 62"
    by simp
  from insert_then_remove_restores[OF wrapped_example_wf 2 4, of 0 15] wrapped_example_wf 2 3
  show ?thesis by blast
qed

lemma fill_example:
  "CircularArray_fill (0 :: nat) 2 7 [] =
     Inr (\<lparr>data_array = Some 0, head = 0, tail = 1, size_c = 2, capacity = 2\<rparr>, [Some [7, 7]])"
  by (simp add: op_defs eval_defs)

theorem size_le_capacity_witness:
  "reachable (0 :: nat) \<lparr>data_array = Some 0, head = 0, tail = 1, size_c = 2, capacity = 2\<rparr>
     [Some [7, 7]] \<and>
   size_c \<lparr>data_array = Some 0, head = 0, tail = 1, size_c = 2, capacity = 2\<rparr>
     \<le> capacity \<lparr>data_array = Some 0, head = 0, tail = 1, size_c = 2, capacity = 2\<rparr>"
proof -
  have r: "reachable (0 :: nat)
      \<lparr>data_array = Some 0, head = 0, tail = 1, size_c = 2, capacity = 2\<rparr> [Some [7, 7]]"
    using fill_example by (rule reach_fill)
  from r size_le_capacity[OF r] show ?thesis ..
qed

theorem copy_is_independent_witness:
  "wf_c \<lparr>data_array = Some 0, head = 2, tail = 1, size_c = 2, capacity = 3\<rparr>
     [Some [20 :: nat, 0, 10]] \<and>
   (\<exists>c2 h1.
      CircularArray_copy 0 \<lparr>data_array = Some 0, head = 2, tail = 1, size_c = 2, capacity = 3\<rparr>
        [Some [20 :: nat, 0, 10]] = Inr (c2, h1) \<and>
      logical c2 h1 = [Inr 10, Inr 20] \<and>
      Capacity c2 = 2 \<and> head c2 = 0 \<and>
      (\<forall>xs c2' h2. perform_all 0 xs c2 h1 = Inr (c2', h2) \<longrightarrow>
         logical \<lparr>data_array = Some 0, head = 2, tail = 1, size_c = 2, capacity = 3\<rparr> h2
           = [Inr 10, Inr 20]) \<and>
      (\<forall>xs c' h2.
         perform_all 0 xs \<lparr>data_array = Some 0, head = 2, tail = 1, size_c = 2, capacity = 3\<rparr>
           h1 = Inr (c', h2) \<longrightarrow>
         logical c2 h2 = [Inr 10, Inr 20]))"
proof -
  have l: "logical \<lparr>data_array = Some 0, head = 2, tail = 1, size_c = 2, capacity = 3\<rparr>
      [Some [20 :: nat, 0, 10]] = [Inr 10, Inr 20]"
    by (simp add: op_defs eval_defs)
  from copy_is_independent[OF wrapped_example_wf, of 0] wrapped_example_wf show ?thesis
    unfolding l by (auto simp: Capacity_def Size_def)
qed

lemma push_two_example:
  "push_back_all (0 :: nat) [1, 2] CircularArray_default [] =
     Inr (\<lparr>data_array = Some 0, head = 0, tail = 0, size_c = 2, capacity = 2\<rparr>, [Some [1, 2]])"
  by (simp add: op_defs eval_defs)

lemma copy_two_example:
  "CircularArray_copy (0 :: nat)
     \<lparr>data_array = Some 0, head = 0, tail = 0, size_c = 2, capacity = 2\<rparr> [Some [1, 2]] =
     Inr (\<lparr>data_array = Some 1, head = 0, tail = 1, size_c = 2, capacity = 2\<rparr>,
          [Some [1, 2], Some [1, 2]])"
  by (simp add: op_defs eval_defs)

text \<open>
  Claim C2, at inputs where the code departs from it. The sized-with-fill constructor
  called with capacity 2 leaves head 0, size 2 and the tail pointer 1, whereas
  \<open>(head + size) mod capacity\<close> is 0. The copy of a container that holds two elements is
  left in the same state.
\<close>

theorem fill_constructor_tail_pointer:
  "CircularArray_fill (0 :: nat) 2 7 [] =
     Inr (\<lparr>data_array = Some 0, head = 0, tail = 1, size_c = 2, capacity = 2\<rparr>, [Some [7, 7]]) \<and>
   CircularArray_copy (0 :: nat)
     \<lparr>data_array = Some 0, head = 0, tail = 0, size_c = 2, capacity = 2\<rparr> [Some [1, 2]] =
     Inr (\<lparr>data_array = Some 1, head = 0, tail = 1, size_c = 2, capacity = 2\<rparr>,
          [Some [1, 2], Some [1, 2]]) \<and>
   tail \<lparr>data_array = Some 0, head = 0, tail = 1, size_c = 2, capacity = 2\<rparr> = 1 \<and>
   (head \<lparr>data_array = Some 0, head = 0, tail = 1, size_c = 2, capacity = 2\<rparr>
      + size_c \<lparr>data_array = Some 0, head = 0, tail = 1, size_c = 2, capacity = 2\<rparr>)
     mod capacity \<lparr>data_array = Some 0, head = 0, tail = 1, size_c = 2, capacity = 2\<rparr> = 0 \<and>
   tail \<lparr>data_array = Some 1, head = 0, tail = 1, size_c = 2, capacity = 2\<rparr> = 1 \<and>
   (head \<lparr>data_array = Some 1, head = 0, tail = 1, size_c = 2, capacity = 2\<rparr>
      + size_c \<lparr>data_array = Some 1, head = 0, tail = 1, size_c = 2, capacity = 2\<rparr>)
     mod capacity \<lparr>data_array = Some 1, head = 0, tail = 1, size_c = 2, capacity = 2\<rparr> = 0"
  unfolding fill_example copy_two_example by simp

text \<open>
  Claim C3, at an input where the code departs from it. Push 1 and 2 to the back of a
  default-constructed container and copy it. The copy holds the logical sequence 1, 2 at
  the slots 0 and 1, and logical index \<open>size - 1\<close> is slot 1, which holds 2; but \<open>Back()\<close>
  designates slot 0 and reads 1, because the copy constructor left the tail pointer
  at \<open>size - 1\<close>.
\<close>

theorem back_after_copy:
  "push_back_all (0 :: nat) [1, 2] CircularArray_default [] =
     Inr (\<lparr>data_array = Some 0, head = 0, tail = 0, size_c = 2, capacity = 2\<rparr>, [Some [1, 2]]) \<and>
   CircularArray_copy (0 :: nat)
     \<lparr>data_array = Some 0, head = 0, tail = 0, size_c = 2, capacity = 2\<rparr> [Some [1, 2]] =
     Inr (\<lparr>data_array = Some 1, head = 0, tail = 1, size_c = 2, capacity = 2\<rparr>,
          [Some [1, 2], Some [1, 2]]) \<and>
   logical \<lparr>data_array = Some 1, head = 0, tail = 1, size_c = 2, capacity = 2\<rparr>
     [Some [1, 2], Some [1, 2 :: nat]] = [Inr 1, Inr 2] \<and>
   subscript_ref \<lparr>data_array = Some 1, head = 0, tail = 1, size_c = 2, capacity = 2\<rparr> (2 - 1)
     = Inr 1 \<and>
   subscript \<lparr>data_array = Some 1, head = 0, tail = 1, size_c = 2, capacity = 2\<rparr> (2 - 1)
     [Some [1, 2], Some [1, 2 :: nat]] = Inr 2 \<and>
   Back_ref \<lparr>data_array = Some 1, head = 0, tail = 1, size_c = 2, capacity = 2\<rparr> = 0 \<and>
   Back \<lparr>data_array = Some 1, head = 0, tail = 1, size_c = 2, capacity = 2\<rparr>
     [Some [1, 2], Some [1, 2 :: nat]] = Inr 1"
  unfolding push_two_example copy_two_example
  by (simp add: op_defs eval_defs)

lemma push_three_example:
  "push_back_all (0 :: nat) [1, 2, 3] CircularArray_default [] =
     Inr (\<lparr>data_array = Some 1, head = 0, tail = 3, size_c = 3, capacity = 4\<rparr>,
          [None, Some [1, 2, 3, 0]])"
  by (simp add: op_defs eval_defs)

lemma copy_three_example:
  "CircularArray_copy (0 :: nat)
     \<lparr>data_array = Some 1, head = 0, tail = 3, size_c = 3, capacity = 4\<rparr>
     [None, Some [1, 2, 3, 0]] =
     Inr (\<lparr>data_array = Some 2, head = 0, tail = 2, size_c = 3, capacity = 3\<rparr>,
          [None, Some [1, 2, 3, 0], Some [1, 2, 3]])"
  by (simp add: op_defs eval_defs)

text \<open>
  Claim C4, at an input where the code departs from it. Push 1, 2, 3 to the back of a
  default-constructed container, copy it, and pop the back of the copy: the copy has
  capacity 3 and holds 1, 2. Pushing capacity + 1 = 4 further elements 4, 5, 6, 7 to its
  back leaves 1, 4, 3, 5, 6, 7 and not 1, 2, 4, 5, 6, 7: the first push writes at the tail
  pointer, which the copy constructor left one slot short.
\<close>

theorem push_after_copy_and_pop:
  "push_back_all (0 :: nat) [1, 2, 3] CircularArray_default [] =
     Inr (\<lparr>data_array = Some 1, head = 0, tail = 3, size_c = 3, capacity = 4\<rparr>,
          [None, Some [1, 2, 3, 0]]) \<and>
   CircularArray_copy (0 :: nat)
     \<lparr>data_array = Some 1, head = 0, tail = 3, size_c = 3, capacity = 4\<rparr>
     [None, Some [1, 2, 3, 0]] =
     Inr (\<lparr>data_array = Some 2, head = 0, tail = 2, size_c = 3, capacity = 3\<rparr>,
          [None, Some [1, 2, 3, 0], Some [1, 2, 3]]) \<and>
   PopBack \<lparr>data_array = Some 2, head = 0, tail = 2, size_c = 3, capacity = 3\<rparr>
     = \<lparr>data_array = Some 2, head = 0, tail = 1, size_c = 2, capacity = 3\<rparr> \<and>
   logical \<lparr>data_array = Some 2, head = 0, tail = 1, size_c = 2, capacity = 3\<rparr>
     [None, Some [1, 2, 3, 0], Some [1, 2, 3 :: nat]] = [Inr 1, Inr 2] \<and>
   push_back_all (0 :: nat) [4, 5, 6, 7]
     \<lparr>data_array = Some 2, head = 0, tail = 1, size_c = 2, capacity = 3\<rparr>
     [None, Some [1, 2, 3, 0], Some [1, 2, 3]] =
     Inr (\<lparr>data_array = Some 3, head = 0, tail = 0, size_c = 6, capacity = 6\<rparr>,
          [None, Some [1, 2, 3, 0], None, Some [1, 4, 3, 5, 6, 7]]) \<and>
   logical \<lparr>data_array = Some 3, head = 0, tail = 0, size_c = 6, capacity = 6\<rparr>
     [None, Some [1, 2, 3, 0], None, Some [1, 4, 3, 5, 6, 7 :: nat]]
     = [Inr 1, Inr 4, Inr 3, Inr 5, Inr 6, Inr 7]"
  unfolding push_three_example copy_three_example
  by (simp add: op_defs eval_defs)

text \<open>
  Claim C5, at an input where the code departs from it. Build a container with the
  sized-with-fill constructor, capacity 2, and pop its back twice: it is empty, with head
  0 and the tail pointer 1. Pushing 1, 2 to its back and then reading \<open>Front()\<close> and
  calling \<open>PopFront()\<close> twice yields 2, 1 and not 1, 2: the first push writes at slot 1
  and the second at slot 0. Pushing 1, 2 to its front and then reading \<open>Back()\<close> and calling
  \<open>PopBack()\<close> twice yields 2, 1 as well.
\<close>

theorem round_trip_after_fill_and_pops:
  "CircularArray_fill (0 :: nat) 2 7 [] =
     Inr (\<lparr>data_array = Some 0, head = 0, tail = 1, size_c = 2, capacity = 2\<rparr>, [Some [7, 7]]) \<and>
   PopBack (PopBack \<lparr>data_array = Some 0, head = 0, tail = 1, size_c = 2, capacity = 2\<rparr>)
     = \<lparr>data_array = Some 0, head = 0, tail = 1, size_c = 0, capacity = 2\<rparr> \<and>
   Empty \<lparr>data_array = Some 0, head = 0, tail = 1, size_c = 0, capacity = 2\<rparr> \<and>
   push_back_all (0 :: nat) [1, 2]
     \<lparr>data_array = Some 0, head = 0, tail = 1, size_c = 0, capacity = 2\<rparr> [Some [7, 7]] =
     Inr (\<lparr>data_array = Some 0, head = 0, tail = 1, size_c = 2, capacity = 2\<rparr>, [Some [2, 1]]) \<and>
   drain_front (length [1, 2 :: nat])
     \<lparr>data_array = Some 0, head = 0, tail = 1, size_c = 2, capacity = 2\<rparr> [Some [2, 1 :: nat]]
     = Inr [2, 1] \<and>
   push_front_all (0 :: nat) [1, 2]
     \<lparr>data_array = Some 0, head = 0, tail = 1, size_c = 0, capacity = 2\<rparr> [Some [7, 7]] =
     Inr (\<lparr>data_array = Some 0, head = 0, tail = 1, size_c = 2, capacity = 2\<rparr>, [Some [2, 1]]) \<and>
   drain_back (length [1, 2 :: nat])
     \<lparr>data_array = Some 0, head = 0, tail = 1, size_c = 2, capacity = 2\<rparr> [Some [2, 1 :: nat]]
     = Inr [2, 1]"
  unfolding fill_example
  by (simp add: op_defs eval_defs Empty_def)

end
